theory Spec2Isabelle
  imports Main
begin

text \<open>
  A model of the chat route (\<open>src/app/api/chat/route.ts\<close>: the stream bridge, the event
  transformer and the error unwrapper) and of the citation code of the chat view (the marker
  inserter, the citation map and the marker resolver), with the properties the specification
  states about them. Definitions come first, then what the statements need, then the proofs.
\<close>

section \<open>JavaScript values\<close>

text \<open>
  The values the route handles: what the upstream iterator yields, what \<open>JSON.parse\<close> returns,
  and what is thrown. An object is the list of its own properties in insertion order. A number
  is kept as an exact decimal \<open>JNum m e\<close>, standing for \<open>m * 10^e\<close>: the route only tests a
  number for truthiness and passes it on, and the rounding of doubles is not modelled. A string
  is a \<open>string\<close>, one \<open>char\<close> for each code unit; code units from 256 on are outside the model.
\<close>

datatype jsval =
    JUndefined
  | JNull
  | JBool bool
  | JNum int int
  | JStr string
  | JArr "jsval list"
  | JObj "(string \<times> jsval) list"

text \<open>\<open>ToBoolean\<close>: what \<open>if (x)\<close>, \<open>!x\<close> and \<open>x || y\<close> test.\<close>

fun truthy :: "jsval \<Rightarrow> bool" where
  "truthy JUndefined = False"
| "truthy JNull = False"
| "truthy (JBool b) = b"
| "truthy (JNum m e) = (m \<noteq> 0)"
| "truthy (JStr s) = (s \<noteq> [])"
| "truthy (JArr vs) = True"
| "truthy (JObj kvs) = True"

text \<open>
  The property reads \<open>x.k\<close> and \<open>x?.k\<close>. On an object the last property of that name counts
  (\<open>JSON.parse\<close> keeps the last of two equal keys); on \<open>null\<close> and \<open>undefined\<close> the optional
  read gives \<open>undefined\<close>, and the source reads them with \<open>?.\<close> or after a truthiness test;
  a primitive or an array has none of the names the route reads (\<open>type\<close>, \<open>message\<close>,
  \<open>error\<close>, \<open>code\<close>, ...).
\<close>

fun get :: "jsval \<Rightarrow> string \<Rightarrow> jsval" where
  "get (JObj kvs) k = (case map_of (rev kvs) k of Some v \<Rightarrow> v | None \<Rightarrow> JUndefined)"
| "get v k = JUndefined"

text \<open>\<open>typeof x === 'string'\<close> and \<open>typeof x === 'object'\<close>.\<close>

fun typeof_string :: "jsval \<Rightarrow> bool" where
  "typeof_string (JStr s) = True"
| "typeof_string v = False"

fun typeof_object :: "jsval \<Rightarrow> bool" where
  "typeof_object JNull = True"
| "typeof_object (JArr vs) = True"
| "typeof_object (JObj kvs) = True"
| "typeof_object v = False"

section \<open>\<open>JSON.parse\<close>\<close>

text \<open>
  The JSON grammar of ECMA-404, read by recursive descent. \<open>None\<close> is the \<open>SyntaxError\<close> that
  \<open>JSON.parse\<close> throws.
\<close>

definition is_digit :: "char \<Rightarrow> bool" where
  "is_digit c = (48 \<le> (of_char c :: nat) \<and> (of_char c :: nat) \<le> 57)"

definition digit_val :: "char \<Rightarrow> nat" where
  "digit_val c = of_char c - 48"

definition nat_of_digits :: "string \<Rightarrow> nat" where
  "nat_of_digits ds = foldl (\<lambda>n c. 10 * n + digit_val c) 0 ds"

text \<open>\<open>strip_prefix p s\<close> is the rest of \<open>s\<close> after its prefix \<open>p\<close>.\<close>

fun strip_prefix :: "string \<Rightarrow> string \<Rightarrow> string option" where
  "strip_prefix [] s = Some s"
| "strip_prefix (p # ps) [] = None"
| "strip_prefix (p # ps) (c # cs) = (if p = c then strip_prefix ps cs else None)"

definition dquote :: char where "dquote = CHR 0x22"

definition backslash :: char where "backslash = CHR 0x5C"

definition is_json_ws :: "char \<Rightarrow> bool" where
  "is_json_ws c = (c = CHR 0x20 \<or> c = CHR 0x09 \<or> c = CHR 0x0A \<or> c = CHR 0x0D)"

definition skip_ws :: "string \<Rightarrow> string" where
  "skip_ws cs = dropWhile is_json_ws cs"

text \<open>
  A string token after its opening quote: up to the closing quote. A backslash starts an
  escape: a quote, a backslash, a slash, one of the letters b, f, n, r, t, or u with four
  hexadecimal digits. A raw control character is an error.
\<close>

definition hex_val :: "char \<Rightarrow> nat option" where
  "hex_val c =
     (let n = (of_char c :: nat)
      in if 48 \<le> n \<and> n \<le> 57 then Some (n - 48)
         else if 97 \<le> n \<and> n \<le> 102 then Some (n - 87)
         else if 65 \<le> n \<and> n \<le> 70 then Some (n - 55)
         else None)"

definition hex4 :: "char \<Rightarrow> char \<Rightarrow> char \<Rightarrow> char \<Rightarrow> nat option" where
  "hex4 a b c d =
     (case (hex_val a, hex_val b, hex_val c, hex_val d) of
        (Some x, Some y, Some z, Some w) \<Rightarrow> Some (((x * 16 + y) * 16 + z) * 16 + w)
      | _ \<Rightarrow> None)"

definition unescape :: "char \<Rightarrow> char option" where
  "unescape e =
     (if e = dquote then Some dquote
      else if e = backslash then Some backslash
      else if e = CHR ''/'' then Some CHR ''/''
      else if e = CHR ''b'' then Some (CHR 0x08)
      else if e = CHR ''f'' then Some (CHR 0x0C)
      else if e = CHR ''n'' then Some (CHR 0x0A)
      else if e = CHR ''r'' then Some (CHR 0x0D)
      else if e = CHR ''t'' then Some (CHR 0x09)
      else None)"

fun parse_string_body :: "string \<Rightarrow> (string \<times> string) option" where
  "parse_string_body [] = None"
| "parse_string_body (c # cs) =
     (if c = dquote then Some ([], cs)
      else if c = backslash then
        (case cs of
           [] \<Rightarrow> None
         | e # cs1 \<Rightarrow>
             if e = CHR ''u'' then
               (case cs1 of
                  h1 # h2 # h3 # h4 # cs2 \<Rightarrow>
                    (case hex4 h1 h2 h3 h4 of
                       None \<Rightarrow> None
                     | Some n \<Rightarrow>
                         if n < 256
                         then map_option (\<lambda>(s, r). (char_of n # s, r)) (parse_string_body cs2)
                         else None)
                | _ \<Rightarrow> None)
             else
               (case unescape e of
                  None \<Rightarrow> None
                | Some x \<Rightarrow> map_option (\<lambda>(s, r). (x # s, r)) (parse_string_body cs1)))
      else if (of_char c :: nat) < 32 then None
      else map_option (\<lambda>(s, r). (c # s, r)) (parse_string_body cs))"

text \<open>
  The number token of the JSON grammar: an optional minus sign, an integer part without a
  leading zero, an optional fraction and an optional exponent. The value is kept as an exact
  decimal, mantissa and power of ten.
\<close>

definition scan_int :: "string \<Rightarrow> (string \<times> string) option" where
  "scan_int cs =
     (if take 1 cs = ''0'' then Some (''0'', drop 1 cs)
      else if takeWhile is_digit cs = [] then None
      else Some (takeWhile is_digit cs, dropWhile is_digit cs))"

definition scan_frac :: "string \<Rightarrow> (string \<times> string) option" where
  "scan_frac cs =
     (if take 1 cs = ''.'' then
        (if takeWhile is_digit (drop 1 cs) = [] then None
         else Some (takeWhile is_digit (drop 1 cs), dropWhile is_digit (drop 1 cs)))
      else Some ([], cs))"

definition scan_exp :: "string \<Rightarrow> (int \<times> string) option" where
  "scan_exp cs =
     (if take 1 cs = ''e'' \<or> take 1 cs = ''E'' then
        (let negative = (take 1 (drop 1 cs) = ''-'');
             signed = (negative \<or> take 1 (drop 1 cs) = ''+'');
             ds = (if signed then drop 2 cs else drop 1 cs)
         in if takeWhile is_digit ds = [] then None
            else Some ((if negative then - int (nat_of_digits (takeWhile is_digit ds))
                        else int (nat_of_digits (takeWhile is_digit ds))),
                       dropWhile is_digit ds))
      else Some (0, cs))"

definition parse_number :: "string \<Rightarrow> (jsval \<times> string) option" where
  "parse_number cs =
     (let negative = (take 1 cs = ''-'')
      in case scan_int (if negative then drop 1 cs else cs) of
           None \<Rightarrow> None
         | Some (ip, cs2) \<Rightarrow>
             (case scan_frac cs2 of
                None \<Rightarrow> None
              | Some (fp, cs3) \<Rightarrow>
                  (case scan_exp cs3 of
                     None \<Rightarrow> None
                   | Some (e, cs4) \<Rightarrow>
                       Some (JNum (if negative then - int (nat_of_digits (ip @ fp))
                                   else int (nat_of_digits (ip @ fp)))
                                  (e - int (length fp)), cs4))))"

text \<open>
  Values, array elements and object members. The first argument bounds the number of nested
  calls. \<open>JSON_parse\<close> starts with more than twice the length of the text, and from there on
  the result does not depend on the bound (\<open>JSON_parse_fuel\<close> below): \<open>None\<close> is a syntax
  error, never an exhausted bound.
\<close>

fun parse_value :: "nat \<Rightarrow> string \<Rightarrow> (jsval \<times> string) option"
  and parse_elements :: "nat \<Rightarrow> string \<Rightarrow> (jsval list \<times> string) option"
  and parse_members :: "nat \<Rightarrow> string \<Rightarrow> ((string \<times> jsval) list \<times> string) option" where
  "parse_value 0 cs = None"
| "parse_value (Suc n) cs =
     (case skip_ws cs of
        [] \<Rightarrow> None
      | c # r \<Rightarrow>
          if c = CHR ''{'' then
            (if take 1 (skip_ws r) = ''}'' then Some (JObj [], drop 1 (skip_ws r))
             else map_option (\<lambda>(kvs, r'). (JObj kvs, r')) (parse_members n r))
          else if c = CHR ''['' then
            (if take 1 (skip_ws r) = '']'' then Some (JArr [], drop 1 (skip_ws r))
             else map_option (\<lambda>(vs, r'). (JArr vs, r')) (parse_elements n r))
          else if c = dquote then map_option (\<lambda>(s, r'). (JStr s, r')) (parse_string_body r)
          else if c = CHR ''-'' \<or> is_digit c then parse_number (c # r)
          else if c = CHR ''t'' then map_option (Pair (JBool True)) (strip_prefix ''rue'' r)
          else if c = CHR ''f'' then map_option (Pair (JBool False)) (strip_prefix ''alse'' r)
          else if c = CHR ''n'' then map_option (Pair JNull) (strip_prefix ''ull'' r)
          else None)"
| "parse_elements 0 cs = None"
| "parse_elements (Suc n) cs =
     (case parse_value n cs of
        None \<Rightarrow> None
      | Some (v, r) \<Rightarrow>
          (case skip_ws r of
             [] \<Rightarrow> None
           | c # r' \<Rightarrow>
               if c = CHR '','' then map_option (\<lambda>(vs, r''). (v # vs, r'')) (parse_elements n r')
               else if c = CHR '']'' then Some ([v], r')
               else None))"
| "parse_members 0 cs = None"
| "parse_members (Suc n) cs =
     (case skip_ws cs of
        [] \<Rightarrow> None
      | q # r \<Rightarrow>
          if q \<noteq> dquote then None
          else
            (case parse_string_body r of
               None \<Rightarrow> None
             | Some (k, r1) \<Rightarrow>
                 (case skip_ws r1 of
                    [] \<Rightarrow> None
                  | c # r2 \<Rightarrow>
                      if c \<noteq> CHR '':'' then None
                      else
                        (case parse_value n r2 of
                           None \<Rightarrow> None
                         | Some (v, r3) \<Rightarrow>
                             (case skip_ws r3 of
                                [] \<Rightarrow> None
                              | d # r4 \<Rightarrow>
                                  if d = CHR '','' then
                                    map_option (\<lambda>(kvs, r5). ((k, v) # kvs, r5)) (parse_members n r4)
                                  else if d = CHR ''}'' then Some ([(k, v)], r4)
                                  else None)))))"

definition JSON_parse :: "string \<Rightarrow> jsval option" where
  "JSON_parse text =
     (case parse_value (Suc (2 * length text)) text of
        None \<Rightarrow> None
      | Some (v, r) \<Rightarrow> if skip_ws r = [] then Some v else None)"

section \<open>The error unwrapper\<close>

text \<open>An \<open>Error\<close> object, as far as the route reads it: its \<open>message\<close>.\<close>

definition Error :: "string \<Rightarrow> jsval" where
  "Error message = JObj [(''message'', JStr message)]"

text \<open>
  \<open>typeof m === 'string' ? JSON.parse(m) : m\<close>, written twice in the source (for
  \<open>error.message\<close> and for \<open>parsed.error.message\<close>); \<open>None\<close> is the thrown \<open>SyntaxError\<close>.
\<close>

definition parse_if_string :: "jsval \<Rightarrow> jsval option" where
  "parse_if_string m = (case m of JStr s \<Rightarrow> JSON_parse s | _ \<Rightarrow> Some m)"

text \<open>
  The loop \<open>while (parsed && typeof parsed === 'object')\<close> of the catch block. It returns the
  final value of \<open>errorMessage\<close>; \<open>raw\<close> is \<open>error.message\<close>. The inner \<open>try\<close> swallows the
  \<open>SyntaxError\<close> of the inner parse, and \<open>continue\<close> is the recursive call.
\<close>

function unwrap_loop :: "jsval \<Rightarrow> jsval \<Rightarrow> jsval \<Rightarrow> jsval" where
  "unwrap_loop raw parsed errorMessage =
     (if truthy parsed \<and> typeof_object parsed then
        (if truthy (get (get parsed ''error'') ''message'') then
           (case parse_if_string (get (get parsed ''error'') ''message'') of
              Some innerParsed \<Rightarrow>
                if truthy (get (get innerParsed ''error'') ''message'')
                then unwrap_loop raw innerParsed errorMessage
                else get (get parsed ''error'') ''message''
            | None \<Rightarrow> get (get parsed ''error'') ''message'')
         else if truthy (get parsed ''message'') then get parsed ''message''
         else if typeof_string (get parsed ''error'') then get parsed ''error''
         else raw)
      else errorMessage)"
  by pat_completeness auto

text \<open>
  The computation of \<open>errorMessage\<close> in the catch block. The outer \<open>try\<close> can only fail in its
  first statement, the parse of \<open>error.message\<close>; its handler then takes \<open>error.message\<close>,
  which is truthy there.
\<close>

definition extract_error_message :: "jsval \<Rightarrow> jsval" where
  "extract_error_message error =
     (if truthy (get error ''message'') then
        (case parse_if_string (get error ''message'') of
           None \<Rightarrow> get error ''message''
         | Some parsed \<Rightarrow>
             (let errorMessage = unwrap_loop (get error ''message'') parsed (JStr ''An error occurred'')
              in if errorMessage = JStr ''An error occurred'' then get error ''message''
                 else errorMessage))
      else JStr ''An error occurred'')"

section \<open>The event transformer\<close>

text \<open>
  \<open>responseValue.replace(/^data:\s*/, '').trim()\<close>: the white space of \<open>\s\<close> and of \<open>trim\<close>
  among the code units below 256.
\<close>

definition is_js_space :: "char \<Rightarrow> bool" where
  "is_js_space c = ((of_char c :: nat) \<in> {9, 10, 11, 12, 13, 32, 160})"

definition trim :: "string \<Rightarrow> string" where
  "trim s = rev (dropWhile is_js_space (rev (dropWhile is_js_space s)))"

definition strip_data_label :: "string \<Rightarrow> string" where
  "strip_data_label s =
     (case strip_prefix ''data:'' s of None \<Rightarrow> s | Some r \<Rightarrow> dropWhile is_js_space r)"

text \<open>
  The \<open>SyntaxError\<close> of \<open>JSON.parse\<close>; the route only logs it, and its message text is
  left out.
\<close>

definition SyntaxError :: jsval where
  "SyntaxError = JObj [(''name'', JStr ''SyntaxError'')]"

text \<open>Lines 45 to 51: a string item is parsed, anything else is taken as it is.\<close>

definition decode :: "jsval \<Rightarrow> jsval + jsval" where
  "decode responseValue =
     (case responseValue of
        JStr s \<Rightarrow>
          (case JSON_parse (trim (strip_data_label s)) of
             None \<Rightarrow> Inl SyntaxError
           | Some data \<Rightarrow> Inr data)
      | _ \<Rightarrow> Inr responseValue)"

text \<open>\<open>a || b\<close>.\<close>

definition js_or :: "jsval \<Rightarrow> jsval \<Rightarrow> jsval" where
  "js_or a b = (if truthy a then a else b)"

text \<open>
  The \<open>switch (data.type)\<close>: the transformed event and the new value of \<open>streamEnded\<close>. A
  field copied from a missing property is \<open>undefined\<close>.
\<close>

definition transform :: "jsval \<Rightarrow> bool \<Rightarrow> jsval \<times> bool" where
  "transform data streamEnded =
     (if get data ''type'' = JStr ''message_start'' then
        (JObj [(''type'', JStr ''message_start''), (''id'', get data ''id''),
               (''model'', get data ''model''), (''role'', get data ''role'')], streamEnded)
      else if get data ''type'' = JStr ''content_chunk'' then
        (JObj [(''type'', JStr ''content_chunk''),
               (''delta'', JObj [(''content'',
                  js_or (js_or (get (get data ''delta'') ''content'') (get data ''content''))
                    (JStr ''''))])], streamEnded)
      else if get data ''type'' = JStr ''citation'' then
        (JObj [(''type'', JStr ''citation''), (''citation'', get data ''citation'')], streamEnded)
      else if get data ''type'' = JStr ''message_end'' then
        (JObj [(''type'', JStr ''message_end''), (''finish_reason'', get data ''finish_reason''),
               (''usage'', get data ''usage'')], True)
      else (data, streamEnded))"

section \<open>The stream bridge\<close>

text \<open>
  The sink is the controller of the \<open>ReadableStream\<close>: \<open>frames\<close> are the values whose
  serialisation (\<open>data: \<close>, the \<open>JSON.stringify\<close> of the value, two line feeds) was
  enqueued, \<open>closed\<close> says that the stream no longer accepts chunks, and \<open>close_count\<close>
  counts the calls of \<open>controller.close()\<close> that succeeded. After the stream is closed, by
  the bridge or by the consumer cancelling it, both \<open>enqueue\<close> and \<open>close\<close> throw a \<open>TypeError\<close> with the code \<open>ERR_INVALID_STATE\<close>; they throw
  nothing else. \<open>console\<close> is the list of calls of \<open>console.error\<close>.
\<close>

datatype log_entry =
    Error_processing_chunk jsval jsval
  | Stream_error jsval
  | Error_sending_error_event jsval
  | Error_closing_controller jsval

record bridge_state =
  frames :: "jsval list"
  closed :: bool
  close_count :: nat
  console :: "log_entry list"

definition initial_state :: bridge_state where
  "initial_state = \<lparr>frames = [], closed = False, close_count = 0, console = []\<rparr>"

definition ERR_INVALID_STATE :: jsval where
  "ERR_INVALID_STATE = JObj [(''name'', JStr ''TypeError''), (''code'', JStr ''ERR_INVALID_STATE'')]"

definition controller_enqueue :: "jsval \<Rightarrow> bridge_state \<Rightarrow> (jsval + unit) \<times> bridge_state" where
  "controller_enqueue frame s =
     (if closed s then (Inl ERR_INVALID_STATE, s)
      else (Inr (), s\<lparr>frames := frames s @ [frame]\<rparr>))"

definition controller_close :: "bridge_state \<Rightarrow> (jsval + unit) \<times> bridge_state" where
  "controller_close s =
     (if closed s then (Inl ERR_INVALID_STATE, s)
      else (Inr (), s\<lparr>closed := True, close_count := Suc (close_count s)\<rparr>))"

definition consumer_cancel :: "bridge_state \<Rightarrow> bridge_state" where
  "consumer_cancel s = s\<lparr>closed := True\<rparr>"

definition console_error :: "log_entry \<Rightarrow> bridge_state \<Rightarrow> bridge_state" where
  "console_error entry s = s\<lparr>console := console s @ [entry]\<rparr>"

text \<open>How the body of the loop ends: it goes on with the next item, breaks, or returns.\<close>

datatype flow = Continue | Break | Return

text \<open>
  The inner \<open>try\<close> block (lines 43 to 116) for one truthy item: \<open>Inl\<close> is what it throws.
\<close>

definition try_chunk :: "jsval \<Rightarrow> bool \<Rightarrow> bridge_state \<Rightarrow> (jsval + flow) \<times> bool \<times> bridge_state" where
  "try_chunk response streamEnded s =
     (case decode response of
        Inl error \<Rightarrow> (Inl error, streamEnded, s)
      | Inr data \<Rightarrow>
          if \<not> truthy data then (Inr Continue, streamEnded, s)
          else
            (let (transformedData, streamEnded1) = transform data streamEnded
             in case controller_enqueue transformedData s of
                  (Inl enqueueError, s1) \<Rightarrow>
                    if get enqueueError ''code'' \<noteq> JStr ''ERR_INVALID_STATE'' \<or> \<not> streamEnded1
                    then (Inl enqueueError, streamEnded1, s1)
                    else (Inr Break, streamEnded1, s1)
                | (Inr _, s1) \<Rightarrow>
                    if streamEnded1 then
                      (case controller_close s1 of
                         (Inl closeError, s2) \<Rightarrow>
                           if get closeError ''code'' \<noteq> JStr ''ERR_INVALID_STATE''
                           then (Inl closeError, streamEnded1, s2)
                           else (Inr Return, streamEnded1, s2)
                       | (Inr _, s2) \<Rightarrow> (Inr Return, streamEnded1, s2))
                    else (Inr Continue, streamEnded1, s1)))"

text \<open>
  One iteration: a falsy item is skipped, and whatever the inner \<open>try\<close> throws is logged by
  its \<open>catch\<close> (line 117), after which the loop goes on.
\<close>

definition loop_body :: "jsval \<Rightarrow> bool \<Rightarrow> bridge_state \<Rightarrow> flow \<times> bool \<times> bridge_state" where
  "loop_body response streamEnded s =
     (if truthy response then
        (case try_chunk response streamEnded s of
           (Inl error, streamEnded1, s1) \<Rightarrow>
             (Continue, streamEnded1, console_error (Error_processing_chunk error response) s1)
         | (Inr f, streamEnded1, s1) \<Rightarrow> (f, streamEnded1, s1))
      else (Continue, streamEnded, s))"

text \<open>
  What happens while the bridge awaits the next item: the iterator yields one, or the consumer
  cancels the stream. The iteration ends when the iterator is exhausted or throws.
\<close>

datatype step = Yield jsval | Cancel

datatype ending = Exhausted | Raises jsval

datatype loop_exit = Fell_through bool | Returned | Threw jsval

fun for_await :: "step list \<Rightarrow> ending \<Rightarrow> bool \<Rightarrow> bridge_state \<Rightarrow> loop_exit \<times> bridge_state" where
  "for_await [] Exhausted streamEnded s = (Fell_through streamEnded, s)"
| "for_await [] (Raises error) streamEnded s = (Threw error, s)"
| "for_await (Cancel # steps) ending streamEnded s =
     for_await steps ending streamEnded (consumer_cancel s)"
| "for_await (Yield response # steps) ending streamEnded s =
     (case loop_body response streamEnded s of
        (Continue, streamEnded1, s1) \<Rightarrow> for_await steps ending streamEnded1 s1
      | (Break, streamEnded1, s1) \<Rightarrow> (Fell_through streamEnded1, s1)
      | (Return, streamEnded1, s1) \<Rightarrow> (Returned, s1))"

text \<open>
  The outer \<open>try\<close> block (lines 32 to 133); a failing \<open>await assistant.chatStream(...)\<close> is
  an iteration that throws before any item.
\<close>

definition try_body :: "step list \<Rightarrow> ending \<Rightarrow> bridge_state \<Rightarrow> (jsval + unit) \<times> bridge_state" where
  "try_body steps ending s =
     (case for_await steps ending False s of
        (Threw error, s1) \<Rightarrow> (Inl error, s1)
      | (Returned, s1) \<Rightarrow> (Inr (), s1)
      | (Fell_through streamEnded, s1) \<Rightarrow>
          if \<not> streamEnded then
            (case controller_close s1 of
               (Inl closeError, s2) \<Rightarrow>
                 if get closeError ''code'' \<noteq> JStr ''ERR_INVALID_STATE''
                 then (Inl closeError, s2) else (Inr (), s2)
             | (Inr _, s2) \<Rightarrow> (Inr (), s2))
          else (Inr (), s1))"

text \<open>The outer \<open>catch\<close> (lines 134 to 202): neither of its two \<open>try\<close> blocks rethrows.\<close>

definition error_frame :: "jsval \<Rightarrow> jsval" where
  "error_frame errorMessage = JObj [(''type'', JStr ''error''), (''message'', errorMessage)]"

definition catch_stream_error :: "jsval \<Rightarrow> bridge_state \<Rightarrow> (jsval + unit) \<times> bridge_state" where
  "catch_stream_error error s =
     (let s1 = console_error (Stream_error error) s;
          errorMessage = extract_error_message error;
          s3 = (case controller_enqueue (error_frame errorMessage) s1 of
                  (Inl e, s2) \<Rightarrow>
                    if get e ''code'' \<noteq> JStr ''ERR_INVALID_STATE''
                    then console_error (Error_sending_error_event e) s2 else s2
                | (Inr _, s2) \<Rightarrow> s2);
          s5 = (case controller_close s3 of
                  (Inl closeError, s4) \<Rightarrow>
                    if get closeError ''code'' \<noteq> JStr ''ERR_INVALID_STATE''
                    then console_error (Error_closing_controller closeError) s4 else s4
                | (Inr _, s4) \<Rightarrow> s4)
      in (Inr (), s5))"

text \<open>\<open>start(controller)\<close>, on a fresh controller. \<open>Inl\<close> would be an exception that escapes.\<close>

definition start :: "step list \<Rightarrow> ending \<Rightarrow> (jsval + unit) \<times> bridge_state" where
  "start steps ending =
     (case try_body steps ending initial_state of
        (Inl error, s) \<Rightarrow> catch_stream_error error s
      | (Inr u, s) \<Rightarrow> (Inr u, s))"

section \<open>Citation addressing: indexer, marker inserter, marker resolver\<close>

text \<open>
  A JavaScript string is modelled as a \<open>string\<close>: one \<open>char\<close> stands for one code unit, and
  \<open>length\<close> is the \<open>.length\<close> of the source. A citation carries its character offset and its
  references; the type of a reference is declared outside the two source files, so it is a type
  parameter. Offsets are integers (the upstream contract); a negative one is representable,
  because the filter of the source tests for it.
\<close>

record 'r citation =
  position :: int
  references :: "'r list"

subsection \<open>Template literals and slices\<close>

definition digit_char :: "nat \<Rightarrow> char" where
  "digit_char d = char_of (48 + d)"

text \<open>The decimal rendering of a non-negative integer inside a template literal.\<close>

fun string_of_nat :: "nat \<Rightarrow> string" where
  "string_of_nat n =
     (if n < 10 then [digit_char n] else string_of_nat (n div 10) @ [digit_char (n mod 10)])"

declare string_of_nat.simps [simp del]

text \<open>
  \<open>String.prototype.slice\<close>: a negative index counts from the end, and both indices are
  clamped to the string.
\<close>

definition slice_index :: "string \<Rightarrow> int \<Rightarrow> nat" where
  "slice_index s i =
     (if i < 0 then nat (max (int (length s) + i) 0) else min (nat i) (length s))"

definition slice :: "string \<Rightarrow> int \<Rightarrow> int \<Rightarrow> string" where
  "slice s from to = take (slice_index s to - slice_index s from) (drop (slice_index s from) s)"

definition slice_from :: "string \<Rightarrow> int \<Rightarrow> string" where
  "slice_from s from = drop (slice_index s from) s"

subsection \<open>Marker inserter\<close>


definition marker_token :: "nat \<Rightarrow> string" where
  "marker_token i = ''[CITATION_'' @ string_of_nat i @ '']''"



subsection \<open>Citation map of the resolution pass\<close>

definition map_validCitations :: "string \<Rightarrow> 'r citation list \<Rightarrow> 'r citation list" where
  "map_validCitations content citations =
     sort_key position
       (filter (\<lambda>citation. position citation \<ge> 0 \<and> position citation \<le> int (length content))
          citations)"

text \<open>The key \<open>`CITATION_${marker}`\<close> of the map, for the text \<open>marker\<close> after the underscore.\<close>

definition citation_key :: "string \<Rightarrow> string" where
  "citation_key marker = ''CITATION_'' @ marker"

text \<open>
  \<open>validCitations.forEach((citation, idx) => map.set(`CITATION_${idx}`, ...))\<close>: the entries in
  the order they are set, and the map they build.
\<close>

definition citationMap_entries ::
  "string \<Rightarrow> 'r citation list \<Rightarrow> (string \<times> (nat \<times> 'r citation)) list" where
  "citationMap_entries content citations =
     map (\<lambda>(idx, citation). (citation_key (string_of_nat idx), (idx + 1, citation)))
       (enumerate 0 (map_validCitations content citations))"

definition citationMap :: "string \<Rightarrow> 'r citation list \<Rightarrow> (string \<rightharpoonup> nat \<times> 'r citation)" where
  "citationMap content citations =
     (if citations = [] then Map.empty
      else fold (\<lambda>(key, data) m. m(key \<mapsto> data)) (citationMap_entries content citations) Map.empty)"


subsection \<open>Marker resolver\<close>

text \<open>
  The regular expression \<open>/\[CITATION_(\d+)\]/g\<close>. \<open>match_here s\<close> is the capture group when
  a match starts at the first character of \<open>s\<close>: the digits are taken greedily, and since the
  character after them must be the closing bracket, no shorter run of digits can match.
\<close>

definition match_here :: "string \<Rightarrow> string option" where
  "match_here s =
     (case strip_prefix ''[CITATION_'' s of
        None \<Rightarrow> None
      | Some r \<Rightarrow>
          (let ds = takeWhile is_digit r
           in if ds \<noteq> [] \<and> take 1 (dropWhile is_digit r) = '']'' then Some ds else None))"

text \<open>The leftmost match in \<open>s\<close>: its offset and its capture group.\<close>

fun regex_search :: "string \<Rightarrow> (nat \<times> string) option" where
  "regex_search [] = None"
| "regex_search (c # cs) =
     (case match_here (c # cs) of
        Some ds \<Rightarrow> Some (0, ds)
      | None \<Rightarrow> map_option (\<lambda>(k, ds). (Suc k, ds)) (regex_search cs))"

text \<open>
  \<open>regex.exec(node)\<close> with \<open>regex.lastIndex = lastIndex\<close>: \<open>match.index\<close> and \<open>match[1]\<close>
  of the leftmost match at or after \<open>lastIndex\<close>. The matched text \<open>match[0]\<close> is the bracketed
  token, and the new \<open>regex.lastIndex\<close> is the index after it.
\<close>

definition regex_exec :: "string \<Rightarrow> nat \<Rightarrow> (nat \<times> string) option" where
  "regex_exec node lastIndex =
     map_option (\<lambda>(k, ds). (lastIndex + k, ds)) (regex_search (drop lastIndex node))"

definition match0 :: "string \<Rightarrow> string" where
  "match0 marker = ''[CITATION_'' @ marker @ '']''"

datatype 'r part = TextPart string | InlineCitation nat "'r citation"

datatype 'r rendered = Unchanged string | Fragment "'r part list"

text \<open>
  The \<open>while ((match = regex.exec(node)) !== null)\<close> loop of the string branch of
  \<open>processNodeForCitations\<close>: it returns the final \<open>lastIndex\<close> and \<open>parts\<close>.
\<close>

function scan_loop ::
  "(string \<rightharpoonup> nat \<times> 'r citation) \<Rightarrow> string \<Rightarrow> nat \<Rightarrow> 'r part list \<Rightarrow> nat \<times> 'r part list" where
  "scan_loop cmap node lastIndex parts =
     (case regex_exec node lastIndex of
        None \<Rightarrow> (lastIndex, parts)
      | Some (index, marker) \<Rightarrow>
          (let parts1 = (if index > lastIndex
                         then parts @ [TextPart (slice node (int lastIndex) (int index))]
                         else parts);
               parts2 = (case cmap (citation_key marker) of
                           Some (number, citation) \<Rightarrow> parts1 @ [InlineCitation number citation]
                         | None \<Rightarrow> parts1 @ [TextPart (match0 marker)])
           in scan_loop cmap node (index + length (match0 marker)) parts2))"
  by pat_completeness auto

text \<open>
  The string branch of \<open>processNodeForCitations\<close>: the text after the last match is added, and
  the parts replace the node only when there is more than one of them.
\<close>

definition processNodeForCitations ::
  "(string \<rightharpoonup> nat \<times> 'r citation) \<Rightarrow> string \<Rightarrow> 'r rendered" where
  "processNodeForCitations cmap node =
     (let (lastIndex, parts) = scan_loop cmap node 0 [];
          parts' = (if lastIndex < length node
                    then parts @ [TextPart (slice_from node (int lastIndex))]
                    else parts)
      in if length parts' > 1 then Fragment parts' else Unchanged node)"

section \<open>Notions used in the statements\<close>

subsection \<open>Runs of the bridge\<close>

text \<open>
  The \<open>type\<close> of the event an upstream item decodes to, and the frame the item gives when it
  is written: none for a falsy item, an item that does not parse, or one that parses to a falsy
  value.
\<close>

definition event_type :: "jsval \<Rightarrow> jsval" where
  "event_type response =
     (if truthy response then
        (case decode response of Inl error \<Rightarrow> JUndefined | Inr data \<Rightarrow> get data ''type'')
      else JUndefined)"

definition frame_of :: "jsval \<Rightarrow> jsval option" where
  "frame_of response =
     (if truthy response then
        (case decode response of
           Inl error \<Rightarrow> None
         | Inr data \<Rightarrow> if truthy data then Some (fst (transform data False)) else None)
      else None)"

fun is_message_end :: "step \<Rightarrow> bool" where
  "is_message_end (Yield response) = (event_type response = JStr ''message_end'')"
| "is_message_end Cancel = False"

fun is_error_event :: "step \<Rightarrow> bool" where
  "is_error_event (Yield response) = (event_type response = JStr ''error'')"
| "is_error_event Cancel = False"

text \<open>The frames of all the items of a run, in order.\<close>

fun all_frames :: "step list \<Rightarrow> jsval list" where
  "all_frames [] = []"
| "all_frames (Cancel # steps) = all_frames steps"
| "all_frames (Yield response # steps) =
     (case frame_of response of None \<Rightarrow> all_frames steps | Some f \<Rightarrow> f # all_frames steps)"

text \<open>A terminal frame is one whose \<open>type\<close> is \<open>message_end\<close> or \<open>error\<close>.\<close>

definition terminal_frame :: "jsval \<Rightarrow> bool" where
  "terminal_frame f = (get f ''type'' = JStr ''message_end'' \<or> get f ''type'' = JStr ''error'')"

text \<open>The sink and the console after a run, and the exception that escapes it, if any.\<close>

definition final_state :: "step list \<Rightarrow> ending \<Rightarrow> bridge_state" where
  "final_state steps ending = snd (start steps ending)"

definition escaped :: "step list \<Rightarrow> ending \<Rightarrow> jsval option" where
  "escaped steps ending = (case fst (start steps ending) of Inl error \<Rightarrow> Some error | Inr u \<Rightarrow> None)"

text \<open>
  The invariant of the sink: the bridge has closed it at most once, and not at all while it
  is open.
\<close>

definition safe :: "bridge_state \<Rightarrow> bool" where
  "safe s = (if closed s then close_count s \<le> 1 else close_count s = 0)"

subsection \<open>Nested error envelopes\<close>








text \<open>The size of a value, counting the characters of its strings; a parse never yields more
  than it reads, which is why the unwrapping loop ends.\<close>

fun jsize :: "jsval \<Rightarrow> nat" where
  "jsize (JStr s) = Suc (length s)"
| "jsize (JArr vs) = Suc (sum_list (map jsize vs))"
| "jsize (JObj kvs) = Suc (sum_list (map (\<lambda>kv. Suc (length (fst kv) + jsize (snd kv))) kvs))"
| "jsize v = 1"

subsection \<open>Parts of a resolved text node\<close>

text \<open>
  The scan of a text node described on the remaining text instead of by indices (proved equal
  to the loop of the source below).
\<close>

definition resolve_marker :: "(string \<rightharpoonup> nat \<times> 'r citation) \<Rightarrow> string \<Rightarrow> 'r part" where
  "resolve_marker cmap marker =
     (case cmap (citation_key marker) of
        Some (number, citation) \<Rightarrow> InlineCitation number citation
      | None \<Rightarrow> TextPart (match0 marker))"

function parts_from :: "(string \<rightharpoonup> nat \<times> 'r citation) \<Rightarrow> string \<Rightarrow> 'r part list" where
  "parts_from cmap s =
     (case regex_search s of
        None \<Rightarrow> (if s = [] then [] else [TextPart s])
      | Some (k, marker) \<Rightarrow>
          (if 0 < k then [TextPart (take k s)] else [])
            @ resolve_marker cmap marker # parts_from cmap (drop (k + length (match0 marker)) s))"
  by pat_completeness auto









section \<open>Termination\<close>

subsection \<open>The scans of a text node\<close>

text \<open>A match is never empty, so every scan moves forward in the text.\<close>

lemma length_match0 [simp]: "length (match0 marker) = length marker + 11"
  by (simp add: match0_def)

lemma strip_prefix_Some: "strip_prefix p s = Some r \<Longrightarrow> s = p @ r"
  by (induction p s rule: strip_prefix.induct) (auto split: if_splits)

lemma strip_prefix_append: "strip_prefix p (p @ r) = Some r"
  by (induction p) auto

lemma match_here_Some:
  "match_here s = Some ds \<Longrightarrow> \<exists>rest. s = match0 ds @ rest \<and> ds \<noteq> [] \<and> (\<forall>c\<in>set ds. is_digit c)"
proof -
  assume m: "match_here s = Some ds"
  then obtain r where r: "strip_prefix ''[CITATION_'' s = Some r"
    by (auto simp: match_here_def split: option.splits)
  from m r have ds: "ds = takeWhile is_digit r" "ds \<noteq> []"
    and br: "take 1 (dropWhile is_digit r) = '']''"
    by (auto simp: match_here_def Let_def split: if_splits)
  from br obtain rest where "dropWhile is_digit r = CHR '']'' # rest"
    by (cases "dropWhile is_digit r") auto
  then have "r = ds @ CHR '']'' # rest"
    using ds(1) takeWhile_dropWhile_id [of is_digit r] by simp
  moreover have "s = ''[CITATION_'' @ r"
    using strip_prefix_Some [OF r] .
  moreover have "\<forall>c\<in>set ds. is_digit c"
    using ds(1) by (auto dest: set_takeWhileD)
  ultimately show ?thesis
    using ds(2) by (auto simp: match0_def)
qed

lemma regex_search_Some:
  "regex_search s = Some (k, ds) \<Longrightarrow> k + length (match0 ds) \<le> length s"
proof (induction s arbitrary: k)
  case Nil
  then show ?case by simp
next
  case (Cons c cs)
  show ?case
  proof (cases "match_here (c # cs)")
    case None
    with Cons.prems obtain k' where "regex_search cs = Some (k', ds)" "k = Suc k'"
      by auto
    with Cons.IH show ?thesis by fastforce
  next
    case (Some ds')
    with Cons.prems have "k = 0" "ds' = ds" by auto
    with Some match_here_Some [of "c # cs" ds] show ?thesis
      by (metis add_0 length_append le_add1)
  qed
qed

lemma regex_exec_Some:
  "regex_exec node lastIndex = Some (index, marker) \<Longrightarrow>
   lastIndex \<le> index \<and> index + length (match0 marker) \<le> length node"
proof -
  assume "regex_exec node lastIndex = Some (index, marker)"
  then obtain k where k: "regex_search (drop lastIndex node) = Some (k, marker)"
    and i: "index = lastIndex + k"
    by (auto simp: regex_exec_def)
  from regex_search_Some [OF k] have "k + length (match0 marker) \<le> length node - lastIndex"
    by simp
  then show ?thesis using i by simp
qed

termination scan_loop
proof (relation "measure (\<lambda>(m, node, lastIndex, parts). length node - lastIndex)")
  show "wf (measure (\<lambda>(m, node, lastIndex, parts). length node - lastIndex))"
    by simp
next
  fix cmap :: "string \<rightharpoonup> nat \<times> 'r citation"
  fix node lastIndex and parts :: "'r part list"
  fix x2 index marker xa xb
  assume "regex_exec node lastIndex = Some x2" "(index, marker) = x2"
  then have "regex_exec node lastIndex = Some (index, marker)" by simp
  from regex_exec_Some [OF this] have "lastIndex \<le> index"
    "index + length (match0 marker) \<le> length node" by simp_all
  then show "((cmap, node, index + length (match0 marker), xb),
           cmap, node, lastIndex, parts)
          \<in> measure (\<lambda>(m, node, lastIndex, parts). length node - lastIndex)"
    by simp
qed

declare scan_loop.simps [simp del]

termination parts_from
proof (relation "measure (\<lambda>(cmap, s). length s)")
  show "wf (measure (\<lambda>(cmap, s). length s))" by simp
next
  fix cmap :: "string \<rightharpoonup> nat \<times> 'r citation" and s x2 k marker
  assume "regex_search s = Some x2" "(k, marker) = x2"
  then have "regex_search s = Some (k, marker)" by simp
  from regex_search_Some [OF this]
  show "((cmap, drop (k + length (match0 marker)) s), cmap, s) \<in> measure (\<lambda>(cmap, s). length s)"
    by simp
qed

declare parts_from.simps [simp del]



subsection \<open>The unwrapping loop\<close>

text \<open>
  A parse yields a value no larger than the text it reads, and a property is smaller than its
  object: each round of the loop works on a smaller value.
\<close>

lemma length_skip_ws: "length (skip_ws cs) \<le> length cs"
  by (simp add: skip_ws_def length_dropWhile_le)

lemma parse_string_body_length:
  "parse_string_body cs = Some (s, r) \<Longrightarrow> length s + length r < length cs"
proof (induction cs arbitrary: s r rule: parse_string_body.induct)
  case 1
  then show ?case by simp
next
  case (2 c cs)
  show ?case
    using "2.prems" "2.IH"
    by (fastforce split: if_splits list.splits option.splits)
qed

lemma scan_int_length: "scan_int cs = Some (ip, r) \<Longrightarrow> length r < length cs"
proof -
  assume a: "scan_int cs = Some (ip, r)"
  show ?thesis
  proof (cases "take 1 cs = ''0''")
    case True
    with a have "r = drop 1 cs" by (simp add: scan_int_def)
    with True show ?thesis by (cases cs) auto
  next
    case False
    with a have "takeWhile is_digit cs \<noteq> []" "r = dropWhile is_digit cs"
      by (auto simp: scan_int_def split: if_splits)
    then show ?thesis
      using takeWhile_dropWhile_id [of is_digit cs]
      by (metis add_diff_cancel_right' diff_less length_append length_greater_0_conv
          zero_less_diff less_add_same_cancel2)
  qed
qed

lemma scan_frac_length: "scan_frac cs = Some (fp, r) \<Longrightarrow> length r \<le> length cs"
  using length_dropWhile_le [of is_digit "drop 1 cs"]
  by (auto simp: scan_frac_def split: if_splits)

lemma scan_exp_length: "scan_exp cs = Some (e, r) \<Longrightarrow> length r \<le> length cs"
proof -
  assume a: "scan_exp cs = Some (e, r)"
  show ?thesis
  proof (cases "take 1 cs = ''e'' \<or> take 1 cs = ''E''")
    case True
    with a obtain ds where "r = dropWhile is_digit ds" "ds = drop 2 cs \<or> ds = drop 1 cs"
      by (auto simp: scan_exp_def Let_def split: if_splits)
    then show ?thesis
      using length_dropWhile_le [of is_digit ds] by auto
  next
    case False
    with a show ?thesis by (simp add: scan_exp_def)
  qed
qed

lemma parse_number_length:
  assumes "parse_number cs = Some (v, r)"
  shows "jsize v + length r \<le> length cs"
proof -
  from assms obtain ip cs2 fp cs3 e where
    i: "scan_int (if take 1 cs = ''-'' then drop 1 cs else cs) = Some (ip, cs2)"
    and f: "scan_frac cs2 = Some (fp, cs3)" and x: "scan_exp cs3 = Some (e, r)"
    and v: "\<exists>m k. v = JNum m k"
    by (auto simp: parse_number_def Let_def split: option.splits)
  from v have "jsize v = 1" by auto
  moreover have "length cs2 < length (if take 1 cs = ''-'' then drop 1 cs else cs)"
    by (rule scan_int_length [OF i])
  then have "length cs2 < length cs" by (simp split: if_splits)
  moreover note scan_frac_length [OF f] scan_exp_length [OF x]
  ultimately show ?thesis by simp
qed

lemma strip_prefix_length: "strip_prefix p s = Some r \<Longrightarrow> length r + length p = length s"
  by (induction p s rule: strip_prefix.induct) (auto split: if_splits)

lemma take1_eq: "take 1 xs = [c] \<Longrightarrow> 0 < length xs"
  by (cases xs) auto

lemma parse_size:
  "(\<forall>cs v r. parse_value n cs = Some (v, r) \<longrightarrow> jsize v + length r \<le> length cs)
   \<and> (\<forall>cs vs r. parse_elements n cs = Some (vs, r) \<longrightarrow>
         sum_list (map jsize vs) + length r \<le> length cs)
   \<and> (\<forall>cs kvs r. parse_members n cs = Some (kvs, r) \<longrightarrow>
         sum_list (map (\<lambda>kv. Suc (length (fst kv) + jsize (snd kv))) kvs) + length r \<le> length cs)"
proof (induction n)
  case 0
  then show ?case by simp
next
  case (Suc n)
  then have V: "\<And>cs v r. parse_value n cs = Some (v, r) \<Longrightarrow> jsize v + length r \<le> length cs"
    and E: "\<And>cs vs r. parse_elements n cs = Some (vs, r) \<Longrightarrow>
              sum_list (map jsize vs) + length r \<le> length cs"
    and M: "\<And>cs kvs r. parse_members n cs = Some (kvs, r) \<Longrightarrow>
              sum_list (map (\<lambda>kv. Suc (length (fst kv) + jsize (snd kv))) kvs) + length r \<le> length cs"
    by blast+
  have value_case: "jsize v + length r \<le> length cs" if p: "parse_value (Suc n) cs = Some (v, r)" for cs v r
  proof -
    from p obtain c r0 where sk: "skip_ws cs = c # r0"
      by (cases "skip_ws cs") auto
    have len: "Suc (length r0) \<le> length cs"
      using length_skip_ws [of cs] sk by simp
    have w: "length (skip_ws r0) \<le> length r0" by (rule length_skip_ws)
    consider (obj0) "c = CHR ''{''" "take 1 (skip_ws r0) = ''}''"
      | (obj) "c = CHR ''{''" "take 1 (skip_ws r0) \<noteq> ''}''"
      | (arr0) "c = CHR ''[''" "take 1 (skip_ws r0) = '']''"
      | (arr) "c = CHR ''[''" "take 1 (skip_ws r0) \<noteq> '']''"
      | (str) "c = dquote"
      | (num) "c \<noteq> CHR ''{''" "c \<noteq> CHR ''[''" "c \<noteq> dquote" "c = CHR ''-'' \<or> is_digit c"
      | (lit) "c \<noteq> CHR ''{''" "c \<noteq> CHR ''[''" "c \<noteq> dquote" "\<not> (c = CHR ''-'' \<or> is_digit c)"
      by (auto simp: dquote_def)
    then show ?thesis
    proof cases
      case obj0
      with p sk have "v = JObj []" "r = drop 1 (skip_ws r0)" by simp_all
      with take1_eq [OF obj0(2)] w len show ?thesis by simp
    next
      case obj
      with p sk obtain kvs where "parse_members n r0 = Some (kvs, r)" "v = JObj kvs"
        by auto
      with M [of r0 kvs r] len show ?thesis by simp
    next
      case arr0
      with p sk have "v = JArr []" "r = drop 1 (skip_ws r0)" by (simp_all add: dquote_def)
      with take1_eq [OF arr0(2)] w len show ?thesis by simp
    next
      case arr
      with p sk obtain vs where "parse_elements n r0 = Some (vs, r)" "v = JArr vs"
        by auto
      with E [of r0 vs r] len show ?thesis by simp
    next
      case str
      with p sk obtain s where "parse_string_body r0 = Some (s, r)" "v = JStr s"
        by (auto simp: dquote_def)
      with parse_string_body_length [of r0 s r] len show ?thesis by simp
    next
      case num
      with p sk have "parse_number (c # r0) = Some (v, r)" by auto
      from parse_number_length [OF this] len show ?thesis by simp
    next
      case lit
      with p sk obtain p' where "strip_prefix p' r0 = Some r" "jsize v = 1"
        by (auto split: if_splits)
      with strip_prefix_length [of p' r0 r] len show ?thesis by simp
    qed
  qed
  have elements_case: "sum_list (map jsize vs) + length r \<le> length cs"
    if p: "parse_elements (Suc n) cs = Some (vs, r)" for cs vs r
  proof -
    from p obtain v r1 where pv: "parse_value n cs = Some (v, r1)"
      by (auto split: option.splits)
    from p pv obtain c r2 where sk: "skip_ws r1 = c # r2"
      by (cases "skip_ws r1") auto
    have len: "jsize v + Suc (length r2) \<le> length cs"
      using V [OF pv] length_skip_ws [of r1] sk by simp
    show ?thesis
    proof (cases "c = CHR '',''")
      case True
      with p pv sk obtain vs' where "parse_elements n r2 = Some (vs', r)" "vs = v # vs'"
        by auto
      with E [of r2 vs' r] len show ?thesis by simp
    next
      case False
      with p pv sk have "vs = [v]" "r = r2" by (auto split: if_splits)
      with len show ?thesis by simp
    qed
  qed
  have members_case: "sum_list (map (\<lambda>kv. Suc (length (fst kv) + jsize (snd kv))) kvs) + length r \<le> length cs"
    if p: "parse_members (Suc n) cs = Some (kvs, r)" for cs kvs r
  proof -
    from p obtain q r0 where sk: "skip_ws cs = q # r0"
      by (cases "skip_ws cs") auto
    from p sk have q: "q = dquote" by (auto split: if_splits)
    from p sk q obtain k r1 where ps: "parse_string_body r0 = Some (k, r1)"
      by (auto split: option.splits)
    from p sk q ps obtain c r2 where sk1: "skip_ws r1 = c # r2"
      by (cases "skip_ws r1") auto
    from p sk q ps sk1 have c: "c = CHR '':''" by (auto split: if_splits)
    from p sk q ps sk1 c obtain v r3 where pv: "parse_value n r2 = Some (v, r3)"
      by (auto split: option.splits)
    from p sk q ps sk1 c pv obtain d r4 where sk3: "skip_ws r3 = d # r4"
      by (cases "skip_ws r3") auto
    have "Suc (length r0) \<le> length cs"
      using length_skip_ws [of cs] sk by simp
    moreover have "length k + length r1 < length r0"
      by (rule parse_string_body_length [OF ps])
    moreover have "Suc (length r2) \<le> length r1"
      using length_skip_ws [of r1] sk1 by simp
    moreover have "jsize v + length r3 \<le> length r2"
      by (rule V [OF pv])
    moreover have "Suc (length r4) \<le> length r3"
      using length_skip_ws [of r3] sk3 by simp
    ultimately have len: "Suc (length k + jsize v) + length r4 \<le> length cs"
      by linarith
    show ?thesis
    proof (cases "d = CHR '',''")
      case True
      with p sk q ps sk1 c pv sk3 obtain kvs' where
        "parse_members n r4 = Some (kvs', r)" "kvs = (k, v) # kvs'"
        by auto
      with M [of r4 kvs' r] len show ?thesis by simp
    next
      case False
      with p sk q ps sk1 c pv sk3 have "kvs = [(k, v)]" "r = r4"
        by (auto split: if_splits)
      with len show ?thesis by simp
    qed
  qed
  show ?case
    using value_case elements_case members_case by blast
qed

lemma JSON_parse_size: "JSON_parse text = Some v \<Longrightarrow> jsize v \<le> length text"
proof -
  assume "JSON_parse text = Some v"
  then obtain r where "parse_value (Suc (2 * length text)) text = Some (v, r)"
    by (auto simp: JSON_parse_def split: option.splits if_splits)
  with parse_size [of "Suc (2 * length text)"] have "jsize v + length r \<le> length text"
    by blast
  then show ?thesis by simp
qed

lemma get_jsize: "get v k \<noteq> JUndefined \<Longrightarrow> jsize (get v k) < jsize v"
proof (cases v)
  case (JObj kvs)
  assume "get v k \<noteq> JUndefined"
  with JObj obtain x where x: "map_of (rev kvs) k = Some x" "get v k = x"
    by (auto split: option.splits)
  then have "(k, x) \<in> set kvs"
    using map_of_SomeD by fastforce
  then have "Suc (length k + jsize x) \<le> sum_list (map (\<lambda>kv. Suc (length (fst kv) + jsize (snd kv))) kvs)"
    using member_le_sum_list [of "Suc (length k + jsize x)" "map (\<lambda>kv. Suc (length (fst kv) + jsize (snd kv))) kvs"]
    by force
  with JObj x show ?thesis by simp
qed simp_all

lemma truthy_defined: "truthy v \<Longrightarrow> v \<noteq> JUndefined"
  by auto

lemma parse_if_string_size:
  "parse_if_string m = Some inner \<Longrightarrow> jsize inner \<le> jsize m"
  using JSON_parse_size by (cases m) (auto simp: parse_if_string_def le_SucI)

termination unwrap_loop
proof (relation "measure (\<lambda>(raw, parsed, errorMessage). jsize parsed)")
  show "wf (measure (\<lambda>(raw, parsed, errorMessage). jsize parsed))" by simp
next
  fix raw parsed errorMessage :: jsval and innerParsed
  assume m: "truthy (get (get parsed ''error'') ''message'')"
    and p: "parse_if_string (get (get parsed ''error'') ''message'') = Some innerParsed"
  from m have d1: "get (get parsed ''error'') ''message'' \<noteq> JUndefined"
    by (rule truthy_defined)
  then have d2: "get parsed ''error'' \<noteq> JUndefined"
    by auto
  have "jsize innerParsed \<le> jsize (get (get parsed ''error'') ''message'')"
    by (rule parse_if_string_size [OF p])
  also have "\<dots> < jsize (get parsed ''error'')"
    by (rule get_jsize [OF d1])
  also have "\<dots> < jsize parsed"
    by (rule get_jsize [OF d2])
  finally show "((raw, innerParsed, errorMessage), raw, parsed, errorMessage)
         \<in> measure (\<lambda>(raw, parsed, errorMessage). jsize parsed)"
    by simp
qed

declare unwrap_loop.simps [simp del]

subsection \<open>The bound of the parser\<close>

text \<open>
  With a bound above twice the length of the text, no call of the parser meets the bound zero
  before the text is used up: the result is the same for every such bound.
\<close>

lemma parse_value_rest:
  "parse_value n cs = Some (v, r) \<Longrightarrow> length r < length cs"
  using parse_size [of n] by (cases v) fastforce+

lemma parse_fuel:
  "(\<forall>m cs. 2 * length cs < n \<and> 2 * length cs < m \<longrightarrow> parse_value n cs = parse_value m cs)
   \<and> (\<forall>m cs. 2 * length cs + 1 < n \<and> 2 * length cs + 1 < m \<longrightarrow>
         parse_elements n cs = parse_elements m cs)
   \<and> (\<forall>m cs. 2 * length cs + 1 < n \<and> 2 * length cs + 1 < m \<longrightarrow>
         parse_members n cs = parse_members m cs)"
proof (induction n)
  case 0
  then show ?case by simp
next
  case (Suc n)
  then have V: "\<And>m cs. 2 * length cs < n \<Longrightarrow> 2 * length cs < m \<Longrightarrow>
                  parse_value n cs = parse_value m cs"
    and E: "\<And>m cs. 2 * length cs + 1 < n \<Longrightarrow> 2 * length cs + 1 < m \<Longrightarrow>
              parse_elements n cs = parse_elements m cs"
    and M: "\<And>m cs. 2 * length cs + 1 < n \<Longrightarrow> 2 * length cs + 1 < m \<Longrightarrow>
              parse_members n cs = parse_members m cs"
    by blast+
  have value_case: "parse_value (Suc n) cs = parse_value m cs"
    if b: "2 * length cs < Suc n" "2 * length cs < m" for m cs
  proof -
    from b obtain m' where m: "m = Suc m'" by (cases m) auto
    show ?thesis
    proof (cases "skip_ws cs")
      case Nil
      then show ?thesis by (simp add: m)
    next
      case (Cons c r)
      have "length r < length cs"
        using length_skip_ws [of cs] Cons by simp
      with b m have "2 * length r + 1 < n" "2 * length r + 1 < m'" by simp_all
      then have "parse_elements n r = parse_elements m' r" "parse_members n r = parse_members m' r"
        using E M by blast+
      with Cons show ?thesis by (simp add: m)
    qed
  qed
  have elements_case: "parse_elements (Suc n) cs = parse_elements m cs"
    if b: "2 * length cs + 1 < Suc n" "2 * length cs + 1 < m" for m cs
  proof -
    from b obtain m' where m: "m = Suc m'" by (cases m) auto
    from b m have v: "parse_value n cs = parse_value m' cs"
      by (intro V) simp_all
    show ?thesis
    proof (cases "parse_value m' cs")
      case None
      with v show ?thesis by (simp add: m)
    next
      case (Some a)
      obtain x r where a: "a = (x, r)" by (cases a)
      from Some a have lr: "length r < length cs" by (auto dest: parse_value_rest)
      show ?thesis
      proof (cases "skip_ws r")
        case Nil
        with v Some a show ?thesis by (simp add: m)
      next
        case (Cons c r')
        have "length r' < length r"
          using length_skip_ws [of r] Cons by simp
        with lr b m have "2 * length r' + 1 < n" "2 * length r' + 1 < m'" by simp_all
        then have "parse_elements n r' = parse_elements m' r'"
          using E by blast
        with v Some a Cons show ?thesis by (simp add: m)
      qed
    qed
  qed
  have members_case: "parse_members (Suc n) cs = parse_members m cs"
    if b: "2 * length cs + 1 < Suc n" "2 * length cs + 1 < m" for m cs
  proof -
    from b obtain m' where m: "m = Suc m'" by (cases m) auto
    show ?thesis
    proof (cases "skip_ws cs")
      case Nil
      then show ?thesis by (simp add: m)
    next
      case (Cons q r)
      have l0: "length r < length cs"
        using length_skip_ws [of cs] Cons by simp
      show ?thesis
      proof (cases "parse_string_body r")
        case None
        with Cons show ?thesis by (simp add: m)
      next
        case (Some a)
        obtain k r1 where a: "a = (k, r1)" by (cases a)
        from Some a have l1: "length r1 < length r"
          using parse_string_body_length [of r k r1] by simp
        show ?thesis
        proof (cases "skip_ws r1")
          case Nil
          with Cons Some a show ?thesis by (simp add: m)
        next
          case c: (Cons c r2)
          have l2: "length r2 < length r1"
            using length_skip_ws [of r1] c by simp
          from l0 l1 l2 b m have v: "parse_value n r2 = parse_value m' r2"
            by (intro V) simp_all
          show ?thesis
          proof (cases "parse_value m' r2")
            case None
            with v Cons Some a c show ?thesis by (simp add: m)
          next
            case s: (Some a')
            obtain x r3 where a': "a' = (x, r3)" by (cases a')
            from s a' have l3: "length r3 < length r2" by (auto dest: parse_value_rest)
            show ?thesis
            proof (cases "skip_ws r3")
              case Nil
              with v Cons Some a c s a' show ?thesis by (simp add: m)
            next
              case d: (Cons d r4)
              have "length r4 < length r3"
                using length_skip_ws [of r3] d by simp
              with l0 l1 l2 l3 b m have "2 * length r4 + 1 < n" "2 * length r4 + 1 < m'"
                by simp_all
              then have "parse_members n r4 = parse_members m' r4"
                using M by blast
              with v Cons Some a c s a' d show ?thesis by (simp add: m)
            qed
          qed
        qed
      qed
    qed
  qed
  show ?case
    using value_case elements_case members_case by blast
qed

lemma JSON_parse_fuel:
  assumes "2 * length text < n"
  shows "JSON_parse text =
         (case parse_value n text of
            None \<Rightarrow> None
          | Some (v, r) \<Rightarrow> if skip_ws r = [] then Some v else None)"
proof -
  have "parse_value (Suc (2 * length text)) text = parse_value n text"
    using parse_fuel [of "Suc (2 * length text)"] assms by simp
  then show ?thesis by (simp add: JSON_parse_def)
qed

section \<open>Properties of the stream bridge\<close>

subsection \<open>One iteration, and the loop on an open sink\<close>

lemma transform_fst: "fst (transform data e) = fst (transform data False)"
  by (simp add: transform_def)

lemma transform_snd: "snd (transform data e) = (e \<or> get data ''type'' = JStr ''message_end'')"
  by (auto simp: transform_def)

lemma transform_type: "get (fst (transform data e)) ''type'' = get data ''type''"
  by (simp add: transform_def)

lemma event_type_falsy: "\<not> truthy data \<Longrightarrow> get data ''type'' = JUndefined"
  by (cases data) auto

lemma frame_of_None_event_type: "frame_of response = None \<Longrightarrow> event_type response = JUndefined"
  by (auto simp: frame_of_def event_type_def event_type_falsy split: sum.splits if_splits)

lemma frame_of_type: "frame_of response = Some f \<Longrightarrow> get f ''type'' = event_type response"
  by (auto simp: frame_of_def event_type_def transform_type split: sum.splits if_splits)

lemma loop_body_skip:
  assumes "frame_of response = None"
  shows "\<exists>s'. loop_body response ended s = (Continue, ended, s')
           \<and> frames s' = frames s \<and> closed s' = closed s \<and> close_count s' = close_count s"
  using assms
  by (auto simp: frame_of_def loop_body_def try_chunk_def console_error_def
      split: sum.splits if_splits)

lemma loop_body_forward:
  assumes "\<not> closed s" and "frame_of response = Some f"
    and "event_type response \<noteq> JStr ''message_end''"
  shows "loop_body response False s = (Continue, False, s\<lparr>frames := frames s @ [f]\<rparr>)"
proof -
  from assms(2) obtain data where d: "truthy response" "decode response = Inr data" "truthy data"
    "f = fst (transform data False)"
    by (auto simp: frame_of_def split: sum.splits if_splits)
  with assms(3) have "snd (transform data False) = False"
    by (simp add: transform_snd event_type_def)
  with d have "transform data False = (f, False)"
    by (metis prod.collapse)
  with d assms(1) show ?thesis
    by (simp add: loop_body_def try_chunk_def controller_enqueue_def)
qed

lemma loop_body_end:
  assumes "\<not> closed s" and "frame_of response = Some f"
    and "event_type response = JStr ''message_end''"
  shows "loop_body response ended s =
         (Return, True, s\<lparr>frames := frames s @ [f], closed := True,
                           close_count := Suc (close_count s)\<rparr>)"
proof -
  from assms(2) obtain data where d: "truthy response" "decode response = Inr data" "truthy data"
    "f = fst (transform data False)"
    by (auto simp: frame_of_def split: sum.splits if_splits)
  with assms(3) have "snd (transform data ended) = True"
    by (simp add: transform_snd event_type_def)
  moreover have "fst (transform data ended) = f"
    using d transform_fst by simp
  ultimately have "transform data ended = (f, True)"
    by (metis prod.collapse)
  with d assms(1) show ?thesis
    by (simp add: loop_body_def try_chunk_def controller_enqueue_def controller_close_def)
qed

lemma for_await_no_end:
  assumes "Cancel \<notin> set steps" and "\<forall>st\<in>set steps. \<not> is_message_end st" and "\<not> closed s"
  shows "\<exists>s'. for_await steps ending False s =
              ((case ending of Exhausted \<Rightarrow> Fell_through False | Raises error \<Rightarrow> Threw error), s')
           \<and> frames s' = frames s @ all_frames steps \<and> \<not> closed s'
           \<and> close_count s' = close_count s"
  using assms
proof (induction steps arbitrary: s)
  case Nil
  then show ?case by (cases ending) auto
next
  case (Cons st steps)
  from Cons.prems(1) obtain response where st: "st = Yield response"
    by (cases st) auto
  from Cons.prems(2) st have ne: "event_type response \<noteq> JStr ''message_end''" by simp
  show ?case
  proof (cases "frame_of response")
    case None
    from loop_body_skip [OF None, of False s] obtain s1 where
      s1: "loop_body response False s = (Continue, False, s1)" "frames s1 = frames s"
        "closed s1 = closed s" "close_count s1 = close_count s"
      by blast
    from Cons.IH [of s1] Cons.prems s1 show ?thesis
      using st None by auto
  next
    case (Some f)
    from loop_body_forward [OF Cons.prems(3) Some ne]
    have lb: "loop_body response False s = (Continue, False, s\<lparr>frames := frames s @ [f]\<rparr>)" .
    from Cons.IH [of "s\<lparr>frames := frames s @ [f]\<rparr>"] Cons.prems lb show ?thesis
      using st Some by auto
  qed
qed

lemma for_await_end:
  assumes "Cancel \<notin> set before" and "\<forall>st\<in>set before. \<not> is_message_end st" and "\<not> closed s"
    and "is_message_end (Yield m)" and "frame_of m = Some f"
  shows "\<exists>s'. for_await (before @ Yield m # after) ending False s = (Returned, s')
           \<and> frames s' = frames s @ all_frames before @ [f] \<and> closed s'
           \<and> close_count s' = Suc (close_count s)"
  using assms(1-3)
proof (induction before arbitrary: s)
  case Nil
  from loop_body_end [OF Nil(3) assms(5), of False] assms(4)
  show ?case by simp
next
  case (Cons st steps)
  from Cons.prems(1) obtain response where st: "st = Yield response"
    by (cases st) auto
  from Cons.prems(2) st have ne: "event_type response \<noteq> JStr ''message_end''" by simp
  show ?case
  proof (cases "frame_of response")
    case None
    from loop_body_skip [OF None, of False s] obtain s1 where
      s1: "loop_body response False s = (Continue, False, s1)" "frames s1 = frames s"
        "closed s1 = closed s" "close_count s1 = close_count s"
      by blast
    from Cons.IH [of s1] Cons.prems s1 show ?thesis
      using st None by auto
  next
    case (Some g)
    from loop_body_forward [OF Cons.prems(3) Some ne]
    have lb: "loop_body response False s = (Continue, False, s\<lparr>frames := frames s @ [g]\<rparr>)" .
    from Cons.IH [of "s\<lparr>frames := frames s @ [g]\<rparr>"] Cons.prems lb show ?thesis
      using st Some by auto
  qed
qed

lemma message_end_frame: "is_message_end (Yield m) \<Longrightarrow> \<exists>f. frame_of m = Some f"
  using frame_of_None_event_type [of m] by (cases "frame_of m") auto

subsection \<open>Every run closes the sink, at most once, and throws nothing\<close>

lemma controller_error_code [simp]: "get ERR_INVALID_STATE ''code'' = JStr ''ERR_INVALID_STATE''"
  by (simp add: ERR_INVALID_STATE_def)

lemma safe_initial: "safe initial_state"
  by (simp add: safe_def initial_state_def)

lemma safe_cancel: "safe s \<Longrightarrow> safe (consumer_cancel s) \<and> closed (consumer_cancel s)"
  by (auto simp: safe_def consumer_cancel_def split: if_splits)

lemma safe_console: "safe (console_error entry s) = safe s"
  by (simp add: safe_def console_error_def)

lemma closed_console: "closed (console_error entry s) = closed s"
  by (simp add: console_error_def)

lemma loop_body_safe:
  assumes "loop_body response ended s = (fl, ended', s')" and "safe s" and "ended \<longrightarrow> closed s"
  shows "safe s' \<and> (closed s \<longrightarrow> closed s') \<and> (fl \<noteq> Continue \<longrightarrow> closed s')
         \<and> (ended' \<longrightarrow> closed s')"
proof (cases "frame_of response")
  case None
  from loop_body_skip [OF None, of ended s] assms show ?thesis
    by (auto simp: safe_def)
next
  case (Some f)
  then obtain data where d: "truthy response" "decode response = Inr data" "truthy data"
    by (auto simp: frame_of_def split: sum.splits if_splits)
  obtain t e1 where t: "transform data ended = (t, e1)" by (cases "transform data ended")
  show ?thesis
  proof (cases "closed s")
    case True
    with assms d t show ?thesis
      by (auto simp: loop_body_def try_chunk_def controller_enqueue_def safe_console closed_console
          split: if_splits)
  next
    case False
    with assms d t show ?thesis
      by (auto simp: loop_body_def try_chunk_def controller_enqueue_def controller_close_def
          safe_def split: if_splits)
  qed
qed

lemma for_await_safe:
  assumes "for_await steps ending ended s = (ex, s')" and "safe s" and "ended \<longrightarrow> closed s"
  shows "safe s' \<and> (ex = Returned \<longrightarrow> closed s') \<and> (ex = Fell_through True \<longrightarrow> closed s')"
  using assms
proof (induction steps ending ended s rule: for_await.induct)
  case (1 streamEnded s)
  then show ?case by auto
next
  case (2 error streamEnded s)
  then show ?case by auto
next
  case (3 steps ending streamEnded s)
  from safe_cancel [OF "3.prems"(2)] "3.IH" "3.prems"(1) show ?case by simp
next
  case (4 response steps ending streamEnded s)
  obtain fl e1 s1 where lb: "loop_body response streamEnded s = (fl, e1, s1)"
    by (cases "loop_body response streamEnded s") auto
  from loop_body_safe [OF lb "4.prems"(2,3)]
  have s1: "safe s1" "fl \<noteq> Continue \<longrightarrow> closed s1" "e1 \<longrightarrow> closed s1" by simp_all
  show ?case
  proof (cases fl)
    case Continue
    with "4.IH" [of fl "(e1, s1)" e1 s1] lb "4.prems"(1) s1 show ?thesis
      by simp
  next
    case Break
    with lb "4.prems"(1) s1 show ?thesis by auto
  next
    case Return
    with lb "4.prems"(1) s1 show ?thesis by auto
  qed
qed

lemma close_safe:
  assumes "safe s"
  shows "safe (snd (controller_close s)) \<and> closed (snd (controller_close s))
         \<and> (\<forall>e. fst (controller_close s) = Inl e \<longrightarrow> e = ERR_INVALID_STATE)"
  using assms by (auto simp: controller_close_def safe_def)

lemma try_body_safe:
  assumes "try_body steps ending initial_state = (r, s)"
  shows "safe s \<and> (r = Inr () \<longrightarrow> closed s)"
proof -
  obtain ex s1 where fa: "for_await steps ending False initial_state = (ex, s1)"
    by (cases "for_await steps ending False initial_state")
  from for_await_safe [OF fa safe_initial]
  have s1: "safe s1" "ex = Returned \<longrightarrow> closed s1" "ex = Fell_through True \<longrightarrow> closed s1"
    by simp_all
  show ?thesis
  proof (cases ex)
    case (Fell_through e)
    show ?thesis
    proof (cases e)
      case True
      with Fell_through fa assms s1 show ?thesis by (auto simp: try_body_def)
    next
      case False
      obtain cr s2 where c: "controller_close s1 = (cr, s2)" by (cases "controller_close s1")
      with close_safe [OF s1(1)] have "safe s2" "closed s2" "\<forall>e. cr = Inl e \<longrightarrow> e = ERR_INVALID_STATE"
        by simp_all
      with False Fell_through fa assms c show ?thesis
        by (cases cr) (auto simp: try_body_def)
    qed
  next
    case Returned
    with fa assms s1 show ?thesis by (auto simp: try_body_def)
  next
    case (Threw error)
    with fa assms s1 show ?thesis by (auto simp: try_body_def)
  qed
qed

lemma catch_stream_error_safe:
  assumes "safe s"
  shows "fst (catch_stream_error error s) = Inr () \<and> safe (snd (catch_stream_error error s))
         \<and> closed (snd (catch_stream_error error s))"
proof -
  define s1 where "s1 = console_error (Stream_error error) s"
  define s3 where "s3 = (case controller_enqueue (error_frame (extract_error_message error)) s1 of
                  (Inl e, s2) \<Rightarrow>
                    if get e ''code'' \<noteq> JStr ''ERR_INVALID_STATE''
                    then console_error (Error_sending_error_event e) s2 else s2
                | (Inr _, s2) \<Rightarrow> s2)"
  have "safe s1" using assms by (simp add: s1_def safe_console)
  then have "safe s3"
    by (auto simp: s3_def controller_enqueue_def safe_def)
  from close_safe [OF this] show ?thesis
    unfolding catch_stream_error_def Let_def s1_def [symmetric] s3_def [symmetric]
    by (cases "controller_close s3") (auto simp: safe_console closed_console split: sum.splits)
qed

lemma start_safe:
  "fst (start steps ending) = Inr () \<and> safe (snd (start steps ending))
   \<and> closed (snd (start steps ending))"
proof -
  obtain r s where tb: "try_body steps ending initial_state = (r, s)"
    by (cases "try_body steps ending initial_state")
  from try_body_safe [OF tb] have s: "safe s" "r = Inr () \<longrightarrow> closed s" by simp_all
  show ?thesis
  proof (cases r)
    case (Inl error)
    with tb catch_stream_error_safe [OF s(1), of error] show ?thesis
      by (simp add: start_def)
  next
    case (Inr u)
    with tb s show ?thesis by (simp add: start_def)
  qed
qed

subsection \<open>Runs without cancellation\<close>


lemma no_terminal_frames:
  assumes "\<forall>st\<in>set steps. \<not> is_message_end st \<and> \<not> is_error_event st"
  shows "filter terminal_frame (all_frames steps) = []"
  using assms
proof (induction steps)
  case Nil
  then show ?case by simp
next
  case (Cons st steps)
  show ?case
  proof (cases st)
    case (Yield response)
    with Cons show ?thesis
      by (cases "frame_of response") (auto simp: terminal_frame_def frame_of_type)
  next
    case Cancel
    with Cons show ?thesis by simp
  qed
qed

lemma start_message_end:
  assumes "Cancel \<notin> set before" and "\<forall>st\<in>set before. \<not> is_message_end st"
    and "is_message_end (Yield m)"
  shows "\<exists>f. frame_of m = Some f
           \<and> frames (final_state (before @ Yield m # after) ending) = all_frames before @ [f]
           \<and> close_count (final_state (before @ Yield m # after) ending) = 1"
proof -
  from message_end_frame [OF assms(3)] obtain f where f: "frame_of m = Some f" by blast
  have "\<not> closed initial_state" by (simp add: initial_state_def)
  from for_await_end [OF assms(1,2) this assms(3) f, of after ending]
  obtain s' where "for_await (before @ Yield m # after) ending False initial_state = (Returned, s')"
    "frames s' = frames initial_state @ all_frames before @ [f]"
    "close_count s' = Suc (close_count initial_state)"
    by blast
  then have "frames (final_state (before @ Yield m # after) ending) = all_frames before @ [f]"
    "close_count (final_state (before @ Yield m # after) ending) = 1"
    by (simp_all add: final_state_def start_def try_body_def initial_state_def)
  with f show ?thesis by blast
qed

lemma start_no_end:
  assumes "Cancel \<notin> set steps" and "\<forall>st\<in>set steps. \<not> is_message_end st"
  shows "frames (final_state steps Exhausted) = all_frames steps
         \<and> close_count (final_state steps Exhausted) = 1"
    and "frames (final_state steps (Raises error)) =
           all_frames steps @ [error_frame (extract_error_message error)]
         \<and> close_count (final_state steps (Raises error)) = 1"
proof -
  have o: "\<not> closed initial_state" by (simp add: initial_state_def)
  from for_await_no_end [OF assms o, of Exhausted]
  obtain s' where "for_await steps Exhausted False initial_state = (Fell_through False, s')"
    "frames s' = frames initial_state @ all_frames steps" "\<not> closed s'"
    "close_count s' = close_count initial_state"
    by auto
  then show "frames (final_state steps Exhausted) = all_frames steps
         \<and> close_count (final_state steps Exhausted) = 1"
    by (simp add: final_state_def start_def try_body_def initial_state_def controller_close_def)
  from for_await_no_end [OF assms o, of "Raises error"]
  obtain s' where "for_await steps (Raises error) False initial_state = (Threw error, s')"
    "frames s' = frames initial_state @ all_frames steps" "\<not> closed s'"
    "close_count s' = close_count initial_state"
    by auto
  then show "frames (final_state steps (Raises error)) =
           all_frames steps @ [error_frame (extract_error_message error)]
         \<and> close_count (final_state steps (Raises error)) = 1"
    by (simp add: final_state_def start_def try_body_def initial_state_def controller_close_def
        catch_stream_error_def controller_enqueue_def console_error_def Let_def)
qed

text \<open>
  Claim C1, as amended. Let no consumer cancel, and let the items before the first
  \<open>message_end\<close> event hold no event of type \<open>error\<close>. Then the frames written are those of
  the items up to and including the \<open>message_end\<close> event, whatever follows it; exactly one of
  them is terminal, the \<open>message_end\<close> frame; the sink is closed by the bridge exactly once;
  and nothing escapes. When the items hold no \<open>message_end\<close> event and the iterator is
  exhausted, the sink is closed at the end, by one call of \<open>close\<close> if no consumer cancelled.
\<close>

theorem one_terminal_frame_one_close:
  "(Cancel \<notin> set before \<and> (\<forall>st\<in>set before. \<not> is_message_end st \<and> \<not> is_error_event st)
      \<and> is_message_end (Yield m) \<longrightarrow>
      (\<exists>f. frame_of m = Some f
         \<and> frames (final_state (before @ Yield m # after) ending) = all_frames before @ [f]
         \<and> filter terminal_frame (frames (final_state (before @ Yield m # after) ending)) = [f])
      \<and> close_count (final_state (before @ Yield m # after) ending) = 1
      \<and> closed (final_state (before @ Yield m # after) ending)
      \<and> escaped (before @ Yield m # after) ending = None)
   \<and> ((\<forall>st\<in>set steps. \<not> is_message_end st) \<longrightarrow>
        closed (final_state steps Exhausted) \<and> escaped steps Exhausted = None
        \<and> (Cancel \<notin> set steps \<longrightarrow>
             frames (final_state steps Exhausted) = all_frames steps
             \<and> close_count (final_state steps Exhausted) = 1))"
proof (intro conjI impI)
  assume h: "Cancel \<notin> set before \<and> (\<forall>st\<in>set before. \<not> is_message_end st \<and> \<not> is_error_event st)
      \<and> is_message_end (Yield m)"
  let ?s = "final_state (before @ Yield m # after) ending"
  from h start_message_end [of before m after ending] obtain f where
    f: "frame_of m = Some f" "frames ?s = all_frames before @ [f]" "close_count ?s = 1"
    by blast
  from h have "terminal_frame f"
    using frame_of_type [OF f(1)] by (simp add: terminal_frame_def)
  moreover from h have "filter terminal_frame (all_frames before) = []"
    by (intro no_terminal_frames) blast
  ultimately have "filter terminal_frame (frames ?s) = [f]"
    by (simp add: f(2))
  with f show "\<exists>f. frame_of m = Some f \<and> frames ?s = all_frames before @ [f]
         \<and> filter terminal_frame (frames ?s) = [f]"
    by blast
  show "close_count ?s = 1" by (rule f(3))
  show "closed ?s"
    using start_safe [of "before @ Yield m # after" ending] by (simp add: final_state_def)
  show "escaped (before @ Yield m # after) ending = None"
    using start_safe [of "before @ Yield m # after" ending] by (simp add: escaped_def)
next
  show "closed (final_state steps Exhausted)"
    using start_safe [of steps Exhausted] by (simp add: final_state_def)
  show "escaped steps Exhausted = None"
    using start_safe [of steps Exhausted] by (simp add: escaped_def)
next
  assume "\<forall>st\<in>set steps. \<not> is_message_end st" and "Cancel \<notin> set steps"
  then show "frames (final_state steps Exhausted) = all_frames steps"
    and "close_count (final_state steps Exhausted) = 1"
    using start_no_end(1) [of steps] by simp_all
qed

text \<open>
  An instance: a \<open>message_start\<close>, a \<open>content_chunk\<close>, the \<open>message_end\<close> and a late
  \<open>content_chunk\<close>.
\<close>

theorem one_terminal_frame_one_close_witness:
  "Cancel \<notin> set [Yield (JObj [(''type'', JStr ''message_start''), (''id'', JStr ''m1'')]),
                    Yield (JObj [(''type'', JStr ''content_chunk''),
                                 (''delta'', JObj [(''content'', JStr ''hi'')])])]
   \<and> list_all (\<lambda>st. \<not> is_message_end st \<and> \<not> is_error_event st)
        [Yield (JObj [(''type'', JStr ''message_start''), (''id'', JStr ''m1'')]),
         Yield (JObj [(''type'', JStr ''content_chunk''),
                      (''delta'', JObj [(''content'', JStr ''hi'')])])]
   \<and> is_message_end (Yield (JObj [(''type'', JStr ''message_end''), (''finish_reason'', JStr ''stop'')]))
   \<and> filter terminal_frame (frames (final_state
        ([Yield (JObj [(''type'', JStr ''message_start''), (''id'', JStr ''m1'')]),
          Yield (JObj [(''type'', JStr ''content_chunk''),
                       (''delta'', JObj [(''content'', JStr ''hi'')])])]
         @ Yield (JObj [(''type'', JStr ''message_end''), (''finish_reason'', JStr ''stop'')])
         # [Yield (JObj [(''type'', JStr ''content_chunk''),
                         (''delta'', JObj [(''content'', JStr ''late'')])])])
        Exhausted)) =
       [JObj [(''type'', JStr ''message_end''), (''finish_reason'', JStr ''stop''),
              (''usage'', JUndefined)]]
   \<and> close_count (final_state
        ([Yield (JObj [(''type'', JStr ''message_start''), (''id'', JStr ''m1'')]),
          Yield (JObj [(''type'', JStr ''content_chunk''),
                       (''delta'', JObj [(''content'', JStr ''hi'')])])]
         @ Yield (JObj [(''type'', JStr ''message_end''), (''finish_reason'', JStr ''stop'')])
         # [Yield (JObj [(''type'', JStr ''content_chunk''),
                         (''delta'', JObj [(''content'', JStr ''late'')])])])
        Exhausted) = 1
   \<and> closed (final_state
        [Yield (JObj [(''type'', JStr ''content_chunk''),
                      (''delta'', JObj [(''content'', JStr ''hi'')])])] Exhausted)"
proof -
  define before where "before = [Yield (JObj [(''type'', JStr ''message_start''), (''id'', JStr ''m1'')]),
                  Yield (JObj [(''type'', JStr ''content_chunk''),
                               (''delta'', JObj [(''content'', JStr ''hi'')])])]"
  define m where "m = JObj [(''type'', JStr ''message_end''), (''finish_reason'', JStr ''stop'')]"
  define after where "after = [Yield (JObj [(''type'', JStr ''content_chunk''),
                              (''delta'', JObj [(''content'', JStr ''late'')])])]"
  define steps where "steps = [Yield (JObj [(''type'', JStr ''content_chunk''),
                              (''delta'', JObj [(''content'', JStr ''hi'')])])]"
  define f where "f = JObj [(''type'', JStr ''message_end''), (''finish_reason'', JStr ''stop''),
              (''usage'', JUndefined)]"
  have h1: "Cancel \<notin> set before" by (simp add: before_def)
  have h2: "list_all (\<lambda>st. \<not> is_message_end st \<and> \<not> is_error_event st) before"
    unfolding before_def by code_simp
  then have h2': "\<forall>st\<in>set before. \<not> is_message_end st \<and> \<not> is_error_event st"
    by (simp only: list_all_iff)
  have h3: "is_message_end (Yield m)" unfolding m_def by code_simp
  have "list_all (\<lambda>st. \<not> is_message_end st) steps" unfolding steps_def by code_simp
  then have h4: "\<forall>st\<in>set steps. \<not> is_message_end st"
    by (simp only: list_all_iff)
  have f: "frame_of m = Some f"
    unfolding m_def f_def by code_simp
  note t = one_terminal_frame_one_close [of before m after Exhausted steps]
  from t h1 h2' h3 obtain g where g: "frame_of m = Some g"
    "filter terminal_frame (frames (final_state (before @ Yield m # after) Exhausted)) = [g]"
    by blast
  from g f have a: "filter terminal_frame (frames (final_state (before @ Yield m # after) Exhausted)) = [f]"
    by simp
  from t h1 h2' h3 have b: "close_count (final_state (before @ Yield m # after) Exhausted) = 1"
    by blast
  from t h4 have c: "closed (final_state steps Exhausted)"
    by blast
  from h1 h2 h3 a b c show ?thesis
    unfolding before_def m_def after_def steps_def f_def by blast
qed

text \<open>
  Claim C1 as stated fails: an upstream event of type \<open>error\<close> is passed through unchanged,
  so with one such event before the only \<open>message_end\<close> the sink receives two terminal frames.
\<close>

theorem one_terminal_frame_counterexample:
  "length (filter is_message_end
      [Yield (JObj [(''type'', JStr ''error''), (''message'', JStr ''upstream'')]),
       Yield (JObj [(''type'', JStr ''message_end'')])]) = 1
   \<and> filter terminal_frame (frames (final_state
      [Yield (JObj [(''type'', JStr ''error''), (''message'', JStr ''upstream'')]),
       Yield (JObj [(''type'', JStr ''message_end'')])] Exhausted)) =
     [JObj [(''type'', JStr ''error''), (''message'', JStr ''upstream'')],
      JObj [(''type'', JStr ''message_end''), (''finish_reason'', JUndefined),
            (''usage'', JUndefined)]]"
  by code_simp

subsection \<open>The error path\<close>






text \<open>
  Claim C6, on the code. The consumer cancels before the first chunk, and two content chunks
  follow. Each \<open>enqueue\<close> throws \<open>ERR_INVALID_STATE\<close> before any terminal condition; the
  error is thrown again, but the \<open>catch\<close> of the chunk takes it, logs it as an error of that
  chunk, and the loop goes on with the next item: the handler of stream errors never runs. When
  the closed sink is met at the \<open>message_end\<close> event, the failure is absorbed without a log.
\<close>

theorem closed_sink_rethrow_is_swallowed:
  "start [Cancel,
          Yield (JObj [(''type'', JStr ''content_chunk''), (''delta'', JObj [(''content'', JStr ''a'')])]),
          Yield (JObj [(''type'', JStr ''content_chunk''), (''delta'', JObj [(''content'', JStr ''b'')])])]
     Exhausted =
   (Inr (),
    \<lparr>frames = [], closed = True, close_count = 0,
     console =
       [Error_processing_chunk ERR_INVALID_STATE
          (JObj [(''type'', JStr ''content_chunk''), (''delta'', JObj [(''content'', JStr ''a'')])]),
        Error_processing_chunk ERR_INVALID_STATE
          (JObj [(''type'', JStr ''content_chunk''), (''delta'', JObj [(''content'', JStr ''b'')])])]\<rparr>)
   \<and> start [Cancel, Yield (JObj [(''type'', JStr ''message_end'')])] Exhausted =
       (Inr (), \<lparr>frames = [], closed = True, close_count = 0, console = []\<rparr>)"
  by code_simp

subsection \<open>The event transformer\<close>

text \<open>
  Claim C9, as amended. A \<open>content_chunk\<close> event is transformed to
  \<open>{type: "content_chunk", delta: {content: c}}\<close>, where \<open>c\<close> is \<open>delta.content\<close> when that is
  truthy, otherwise the top-level \<open>content\<close> when that is truthy, otherwise the empty string;
  \<open>streamEnded\<close> is left as it was.
\<close>

theorem content_chunk_transform:
  "get data ''type'' = JStr ''content_chunk'' \<Longrightarrow>
   transform data streamEnded =
     (JObj [(''type'', JStr ''content_chunk''),
            (''delta'', JObj [(''content'',
               (if truthy (get (get data ''delta'') ''content'')
                then get (get data ''delta'') ''content''
                else if truthy (get data ''content'') then get data ''content''
                else JStr ''''))])],
      streamEnded)"
  by (simp add: transform_def js_or_def)

text \<open>An instance: no \<open>delta\<close>, and a top-level \<open>content\<close>.\<close>

theorem content_chunk_transform_witness:
  "get (JObj [(''type'', JStr ''content_chunk''), (''content'', JStr ''top'')]) ''type'' =
     JStr ''content_chunk''
   \<and> transform (JObj [(''type'', JStr ''content_chunk''), (''content'', JStr ''top'')]) False =
     (JObj [(''type'', JStr ''content_chunk''), (''delta'', JObj [(''content'', JStr ''top'')])],
      False)"
proof -
  have h: "get (JObj [(''type'', JStr ''content_chunk''), (''content'', JStr ''top'')]) ''type'' =
     JStr ''content_chunk''"
    by simp
  from content_chunk_transform [OF h, of False] h show ?thesis
    by simp
qed

text \<open>
  Claim C9 as stated fails: with \<open>delta.content\<close> present and empty and a top-level
  \<open>content\<close> of \<open>x\<close>, the transformed content is \<open>x\<close>, not the \<open>delta.content\<close> that is present.
\<close>

theorem content_chunk_transform_counterexample:
  "get (get (JObj [(''type'', JStr ''content_chunk''), (''delta'', JObj [(''content'', JStr '''')]),
                   (''content'', JStr ''x'')]) ''delta'') ''content'' = JStr ''''
   \<and> fst (transform (JObj [(''type'', JStr ''content_chunk''),
                            (''delta'', JObj [(''content'', JStr '''')]),
                            (''content'', JStr ''x'')]) False) =
     JObj [(''type'', JStr ''content_chunk''), (''delta'', JObj [(''content'', JStr ''x'')])]"
  by code_simp

subsection \<open>The error unwrapper\<close>

text \<open>
  Claim C7. The four scenarios of the specification: a plain message, an envelope, an envelope
  nested in an envelope (its inner quotes escaped by a backslash), and a message that is not
  JSON.
\<close>

theorem error_unwrap_scenarios:
  \<open>extract_error_message (Error ''oops'') = JStr ''oops''
   \<and> extract_error_message (Error ''{"error":{"message":"bad input"}}'') = JStr ''bad input''
   \<and> extract_error_message
       (Error (''{"error":{"message":"{'' @ [backslash] @ ''"error'' @ [backslash] @ ''":{''
               @ [backslash] @ ''"message'' @ [backslash] @ ''":'' @ [backslash] @ ''"deep''
               @ [backslash] @ ''"}}"}}'')) = JStr ''deep''
   \<and> extract_error_message (Error ''not json'') = JStr ''not json''\<close>
  by code_simp





















section \<open>Properties of the citation indexer\<close>



subsection \<open>Decimal rendering and the keys of the map\<close>

lemma digit_val_digit_char: "d < 10 \<Longrightarrow> digit_val (digit_char d) = d"
  by (simp add: digit_val_def digit_char_def)

lemma is_digit_digit_char: "d < 10 \<Longrightarrow> is_digit (digit_char d)"
  by (simp add: is_digit_def digit_char_def)

lemma nat_of_digits_snoc: "nat_of_digits (ds @ [c]) = 10 * nat_of_digits ds + digit_val c"
  by (simp add: nat_of_digits_def)

lemma nat_of_digits_string_of_nat: "nat_of_digits (string_of_nat n) = n"
proof (induction n rule: string_of_nat.induct)
  case (1 n)
  show ?case
  proof (cases "n < 10")
    case True
    then show ?thesis
      by (simp add: string_of_nat.simps [of n] nat_of_digits_def digit_val_digit_char)
  next
    case False
    then have "nat_of_digits (string_of_nat n) = 10 * (n div 10) + n mod 10"
      using "1.IH" by (simp add: string_of_nat.simps [of n] nat_of_digits_snoc digit_val_digit_char)
    then show ?thesis by simp
  qed
qed

lemma string_of_nat_inj: "string_of_nat m = string_of_nat n \<Longrightarrow> m = n"
  by (metis nat_of_digits_string_of_nat)

lemma string_of_nat_digits: "c \<in> set (string_of_nat n) \<Longrightarrow> is_digit c"
proof (induction n rule: string_of_nat.induct)
  case (1 n)
  then show ?case
    by (cases "n < 10") (auto simp: string_of_nat.simps [of n] is_digit_digit_char)
qed

lemma string_of_nat_nonempty: "string_of_nat n \<noteq> []"
  by (cases "n < 10") (simp_all add: string_of_nat.simps [of n])

lemma fold_upd_enumerate:
  fixes key :: "nat \<Rightarrow> 'k" and g :: "nat \<Rightarrow> 'a \<Rightarrow> 'b"
  assumes inj: "\<And>a b. key a = key b \<Longrightarrow> a = b"
  shows "fold (\<lambda>(k, d) m. m(k \<mapsto> d)) (map (\<lambda>(idx, c). (key idx, g idx c)) (enumerate n vs)) m (key i) =
         (if n \<le> i \<and> i < n + length vs then Some (g i (vs ! (i - n))) else m (key i))"
proof (induction vs arbitrary: n m)
  case Nil
  then show ?case by auto
next
  case (Cons v vs)
  define F where "F = (\<lambda>(k :: 'k, d :: 'b) (m :: 'k \<rightharpoonup> 'b). m(k \<mapsto> d))"
  define G where "G = (\<lambda>(idx, c). (key idx, g idx c))"
  have "fold F (map G (enumerate n (v # vs))) m (key i) =
        fold F (map G (enumerate (Suc n) vs)) (m(key n \<mapsto> g n v)) (key i)"
    by (simp add: F_def G_def)
  also have "\<dots> = (if Suc n \<le> i \<and> i < Suc n + length vs then Some (g i (vs ! (i - Suc n)))
                    else (m(key n \<mapsto> g n v)) (key i))"
    unfolding F_def G_def by (rule Cons.IH)
  also have "\<dots> = (if n \<le> i \<and> i < n + length (v # vs) then Some (g i ((v # vs) ! (i - n)))
                    else m (key i))"
  proof (cases "i = n")
    case True
    then show ?thesis by simp
  next
    case False
    then have "key i \<noteq> key n" using inj by blast
    with False show ?thesis
      by (auto simp: Suc_diff_le not_less_eq_eq nth_Cons')
  qed
  finally show ?case unfolding F_def G_def .
qed

lemma citation_key_inj: "citation_key (string_of_nat a) = citation_key (string_of_nat b) \<Longrightarrow> a = b"
  using string_of_nat_inj by (auto simp: citation_key_def)

lemma citationMap_lookup:
  "i < length (map_validCitations content citations) \<Longrightarrow>
   citationMap content citations (citation_key (string_of_nat i)) =
     Some (i + 1, map_validCitations content citations ! i)"
proof -
  assume i: "i < length (map_validCitations content citations)"
  then have ne: "citations \<noteq> []"
    by (auto simp: map_validCitations_def)
  have "citationMap content citations (citation_key (string_of_nat i)) =
        fold (\<lambda>(k, d) m. m(k \<mapsto> d))
          (map (\<lambda>(idx, c). (citation_key (string_of_nat idx), (idx + 1, c)))
             (enumerate 0 (map_validCitations content citations)))
          Map.empty (citation_key (string_of_nat i))"
    using ne by (simp only: citationMap_def citationMap_entries_def if_False)
  also have "\<dots> = (if 0 \<le> i \<and> i < 0 + length (map_validCitations content citations)
                    then Some (i + 1, map_validCitations content citations ! (i - 0))
                    else Map.empty (citation_key (string_of_nat i)))"
    by (rule fold_upd_enumerate
          [where key = "\<lambda>i. citation_key (string_of_nat i)" and g = "\<lambda>idx c. (idx + 1, c)"])
       (rule citation_key_inj)
  also have "\<dots> = Some (i + 1, map_validCitations content citations ! i)"
    using i by simp
  finally show ?thesis .
qed

subsection \<open>The insertion loop as a fold\<close>










subsection \<open>The scan of a text node\<close>

lemma slice_nat: "i \<le> j \<Longrightarrow> slice s (int i) (int j) = take (j - i) (drop i s)"
  by (cases "j \<le> length s"; cases "i \<le> length s") (simp_all add: slice_def slice_index_def min_def)

lemma slice_from_nat: "slice_from s (int i) = drop i s"
  by (simp add: slice_from_def slice_index_def min_def)

lemma scan_loop_parts_from:
  "scan_loop cmap node lastIndex parts = (li, ps) \<Longrightarrow>
   ps @ (if li < length node then [TextPart (drop li node)] else []) =
   parts @ parts_from cmap (drop lastIndex node)"
proof (induction cmap node lastIndex parts arbitrary: li ps rule: scan_loop.induct)
  case (1 cmap node lastIndex parts)
  show ?case
  proof (cases "regex_exec node lastIndex")
    case None
    then have rs: "regex_search (drop lastIndex node) = None"
      by (simp add: regex_exec_def)
    from None "1.prems" have "li = lastIndex" "ps = parts"
      by (simp_all add: scan_loop.simps [of cmap node lastIndex])
    then show ?thesis
      using rs by (simp add: parts_from.simps [of cmap "drop lastIndex node"])
  next
    case (Some a)
    obtain index marker where a: "a = (index, marker)" by (cases a)
    from Some a obtain k where k: "regex_search (drop lastIndex node) = Some (k, marker)"
      and index: "index = lastIndex + k"
      by (auto simp: regex_exec_def)
    define parts1 where "parts1 = (if index > lastIndex
                         then parts @ [TextPart (slice node (int lastIndex) (int index))]
                         else parts)"
    define parts2 where "parts2 = (case cmap (citation_key marker) of
                           Some (number, citation) \<Rightarrow> parts1 @ [InlineCitation number citation]
                         | None \<Rightarrow> parts1 @ [TextPart (match0 marker)])"
    have step: "scan_loop cmap node lastIndex parts =
                scan_loop cmap node (index + length (match0 marker)) parts2"
      unfolding parts2_def parts1_def using Some a
      by (subst scan_loop.simps) (simp add: Let_def)
    have p2: "parts2 = parts1 @ [resolve_marker cmap marker]"
      by (auto simp: parts2_def resolve_marker_def split: option.splits)
    have p1: "parts1 = parts @ (if 0 < k then [TextPart (take k (drop lastIndex node))] else [])"
      using index slice_nat [of lastIndex "lastIndex + k" node] by (simp add: parts1_def)
    from "1.IH" [OF Some a [symmetric] parts1_def parts2_def] "1.prems" step
    have "ps @ (if li < length node then [TextPart (drop li node)] else []) =
          parts2 @ parts_from cmap (drop (index + length (match0 marker)) node)"
      by simp
    also have "\<dots> = parts @ parts_from cmap (drop lastIndex node)"
      using k index p1 p2
      by (simp add: parts_from.simps [of cmap "drop lastIndex node"] ac_simps)
    finally show ?thesis .
  qed
qed

lemma processNodeForCitations_parts_from:
  "processNodeForCitations cmap node =
     (if length (parts_from cmap node) > 1 then Fragment (parts_from cmap node) else Unchanged node)"
proof -
  obtain li ps where s: "scan_loop cmap node 0 [] = (li, ps)"
    by (cases "scan_loop cmap node 0 []")
  from scan_loop_parts_from [OF s]
  have "parts_from cmap node = ps @ (if li < length node then [TextPart (drop li node)] else [])"
    by simp
  then show ?thesis
    using s by (simp add: processNodeForCitations_def slice_from_nat)
qed

lemma not_is_digit_close: "\<not> is_digit CHR '']''"
  by (simp add: is_digit_def)

lemma not_is_digit_open: "\<not> is_digit CHR ''[''"
  by (simp add: is_digit_def)

lemma match_here_match0:
  assumes "ds \<noteq> []" and "\<And>c. c \<in> set ds \<Longrightarrow> is_digit c"
  shows "match_here (match0 ds @ rest) = Some ds"
proof -
  have "strip_prefix ''[CITATION_'' (match0 ds @ rest) = Some (ds @ CHR '']'' # rest)"
    using strip_prefix_append [of "''[CITATION_''" "ds @ CHR '']'' # rest"]
    by (simp add: match0_def)
  moreover have "takeWhile is_digit (ds @ CHR '']'' # rest) = ds"
    using assms(2) by (simp add: not_is_digit_close)
  moreover have "dropWhile is_digit (ds @ CHR '']'' # rest) = CHR '']'' # rest"
    using assms(2) by (simp add: not_is_digit_close)
  ultimately show ?thesis
    using assms(1) by (simp add: match_here_def)
qed


lemma match0_Cons: "match0 ds = CHR ''['' # ''CITATION_'' @ ds @ '']''"
  by (simp add: match0_def)

lemma match_here_straddle:
  assumes "u \<noteq> []" and "match_here u = None"
  shows "match_here (u @ CHR ''['' # w) = None"
proof (rule ccontr)
  assume "match_here (u @ CHR ''['' # w) \<noteq> None"
  then obtain ds where "match_here (u @ CHR ''['' # w) = Some ds" by auto
  from match_here_Some [OF this] obtain rest where
    eq: "u @ CHR ''['' # w = match0 ds @ rest" and ds: "ds \<noteq> []" "\<forall>c\<in>set ds. is_digit c"
    by blast
  from eq obtain us where
    "(u = match0 ds @ us \<and> us @ CHR ''['' # w = rest) \<or> (u @ us = match0 ds \<and> CHR ''['' # w = us @ rest)"
    by (auto simp: append_eq_append_conv2)
  then show False
  proof
    assume "u = match0 ds @ us \<and> us @ CHR ''['' # w = rest"
    then have "match_here u = Some ds"
      using match_here_match0 [of ds us] ds by simp
    with assms(2) show False by simp
  next
    assume b: "u @ us = match0 ds \<and> CHR ''['' # w = us @ rest"
    show False
    proof (cases us)
      case Nil
      with b have "match_here u = Some ds"
        using match_here_match0 [of ds "[]"] ds by simp
      with assms(2) show False by simp
    next
      case (Cons a us')
      with b have a: "a = CHR ''[''" by simp
      from assms(1) obtain c u' where u: "u = c # u'" by (cases u) auto
      with b Cons a have "u' @ CHR ''['' # us' = ''CITATION_'' @ ds @ '']''"
        by (simp add: match0_Cons)
      then have "CHR ''['' \<in> set (''CITATION_'' @ ds @ '']'')"
        by (metis in_set_conv_decomp)
      with ds(2) show False
        using not_is_digit_open by auto
    qed
  qed
qed




lemma regex_search_match0:
  assumes "ds \<noteq> []" and "\<And>c. c \<in> set ds \<Longrightarrow> is_digit c"
  shows "regex_search (match0 ds @ rest) = Some (0, ds)"
proof -
  have "regex_search (CHR ''['' # ''CITATION_'' @ ds @ '']'' @ rest) = Some (0, ds)"
    using match_here_match0 [OF assms, of rest]
    by (simp only: regex_search.simps match0_Cons append_Cons append_assoc option.case)
  then show ?thesis by (simp add: match0_Cons)
qed

lemma regex_search_text_then_marker:
  assumes "regex_search t = None" and "ds \<noteq> []" and "\<And>c. c \<in> set ds \<Longrightarrow> is_digit c"
  shows "regex_search (t @ match0 ds @ rest) = Some (length t, ds)"
  using assms(1)
proof (induction t)
  case Nil
  then show ?case using regex_search_match0 [OF assms(2,3)] by simp
next
  case (Cons c t)
  from Cons.prems have m: "match_here (c # t) = None" and r: "regex_search t = None"
    by (auto split: option.splits)
  have "match_here ((c # t) @ CHR ''['' # ''CITATION_'' @ ds @ '']'' @ rest) = None"
    using match_here_straddle [OF _ m] by simp
  then have "match_here (c # t @ match0 ds @ rest) = None"
    by (simp add: match0_Cons)
  with Cons.IH [OF r] show ?case by simp
qed

lemma marker_token_match0: "marker_token i = match0 (string_of_nat i)"
  by (simp add: marker_token_def match0_def)

lemma parts_from_Nil: "parts_from cmap [] = []"
  by (simp add: parts_from.simps [of cmap "[]"])

lemma parts_from_no_match: "regex_search s = None \<Longrightarrow> parts_from cmap s = (if s = [] then [] else [TextPart s])"
  by (simp add: parts_from.simps [of cmap s])

lemma parts_from_text_then_marker:
  assumes "regex_search t = None"
  shows "parts_from cmap (t @ marker_token i @ rest) =
         (if t = [] then [] else [TextPart t]) @ resolve_marker cmap (string_of_nat i) # parts_from cmap rest"
proof -
  have "regex_search (t @ marker_token i @ rest) = Some (length t, string_of_nat i)"
    unfolding marker_token_match0
    by (rule regex_search_text_then_marker [OF assms string_of_nat_nonempty string_of_nat_digits])
  then show ?thesis
    by (subst parts_from.simps) (simp add: marker_token_match0)
qed

lemma resolve_marker_Some:
  "cmap (citation_key marker) = Some (number, citation) \<Longrightarrow>
   resolve_marker cmap marker = InlineCitation number citation"
  by (simp add: resolve_marker_def)

lemma regex_search_single: "regex_search [c] = None"
  by (simp add: match_here_def)

text \<open>
  Claim C10. A text node that is exactly one marker whose index is in the citation map comes
  back as the literal string: the scan yields a single part, and the parts replace the node
  only when there are at least two. With one more character before or after it, or a second
  marker, the marker is replaced.
\<close>

theorem lone_marker_left_unchanged:
  assumes "cmap (citation_key (string_of_nat n)) = Some (number, citation)"
  shows "processNodeForCitations cmap (marker_token n) = Unchanged (marker_token n)
    \<and> processNodeForCitations cmap (c # marker_token n) =
        Fragment [TextPart [c], InlineCitation number citation]
    \<and> processNodeForCitations cmap (marker_token n @ [c]) =
        Fragment [InlineCitation number citation, TextPart [c]]
    \<and> processNodeForCitations cmap (marker_token n @ marker_token n) =
        Fragment [InlineCitation number citation, InlineCitation number citation]"
proof -
  note r = resolve_marker_Some [where cmap = cmap and marker = "string_of_nat n", OF assms]
  have none: "regex_search [] = None" by simp
  have a: "parts_from cmap (marker_token n) = [InlineCitation number citation]"
    using parts_from_text_then_marker [OF none, of cmap n "[]"] r
    by (simp add: parts_from_Nil)
  have b: "parts_from cmap (c # marker_token n) = [TextPart [c], InlineCitation number citation]"
    using parts_from_text_then_marker [OF regex_search_single, of cmap c n "[]"] r
    by (simp add: parts_from_Nil)
  have c: "parts_from cmap (marker_token n @ [c]) = [InlineCitation number citation, TextPart [c]]"
    using parts_from_text_then_marker [OF none, of cmap n "[c]"] r
    by (simp add: parts_from_no_match [OF regex_search_single])
  have d: "parts_from cmap (marker_token n @ marker_token n) =
           [InlineCitation number citation, InlineCitation number citation]"
    using parts_from_text_then_marker [OF none, of cmap n "marker_token n"] r a
    by simp
  show ?thesis
    by (simp add: processNodeForCitations_parts_from a b c d)
qed

theorem lone_marker_left_unchanged_witness:
  "citationMap ''hi'' [\<lparr>position = 1, references = [''a'']\<rparr>] (citation_key (string_of_nat 0)) =
     Some (1, \<lparr>position = 1, references = [''a'']\<rparr>)
   \<and> processNodeForCitations (citationMap ''hi'' [\<lparr>position = 1, references = [''a'']\<rparr>])
       ''[CITATION_0]'' = Unchanged ''[CITATION_0]''
   \<and> processNodeForCitations (citationMap ''hi'' [\<lparr>position = 1, references = [''a'']\<rparr>])
       ''x[CITATION_0]'' = Fragment [TextPart ''x'', InlineCitation 1 \<lparr>position = 1, references = [''a'']\<rparr>]"
proof -
  have h: "citationMap ''hi'' [\<lparr>position = 1, references = [''a'']\<rparr>] (citation_key (string_of_nat 0)) =
     Some (1, \<lparr>position = 1, references = [''a'']\<rparr>)"
    using citationMap_lookup [of 0 "''hi''" "[\<lparr>position = 1, references = [''a'']\<rparr>]"]
    by (simp add: map_validCitations_def)
  have m: "marker_token 0 = ''[CITATION_0]''"
    by code_simp
  from lone_marker_left_unchanged
         [where cmap = "citationMap ''hi'' [\<lparr>position = 1, references = [''a'']\<rparr>]"
            and n = 0 and c = "CHR ''x''", OF h] h
  show ?thesis
    by (simp add: m)
qed

subsection \<open>Resolving the annotated text\<close>






















end
